theory Spec2Isabelle
  imports Main "HOL-Library.Sublist" "HOL-Library.Char_ord" "HOL-Library.List_Lexorder"
begin

section \<open>Text\<close>

text \<open>
  The script \<^verbatim>\<open>.github/workflows/link_fix.py\<close> reads and writes its files as UTF-8. A
  Python \<^verbatim>\<open>str\<close> is modelled by the bytes of its UTF-8 encoding, a \<^typ>\<open>string\<close>; every
  delimiter the script looks for is ASCII, so slicing and searching agree on both views.
  White space, line boundaries and letter case are modelled on ASCII: the model is exact
  on text that has no non-ASCII white space or line boundary (U+0085, U+00A0, U+1680,
  U+2000 to U+200A, U+2028, U+2029, U+202F, U+205F, U+3000) and no non-ASCII cased letter.
\<close>

definition isspace :: "char \<Rightarrow> bool" where
  \<comment> \<open>\<^verbatim>\<open>str.isspace\<close> on ASCII: tab, LF, VT, FF, CR, the separators 0x1c to 0x1f, space\<close>
  "isspace c = (let n = (of_char c :: nat) in (9 \<le> n \<and> n \<le> 13) \<or> (28 \<le> n \<and> n \<le> 32))"

definition lstrip :: "string \<Rightarrow> string" where
  "lstrip s = dropWhile isspace s"

definition rstrip :: "string \<Rightarrow> string" where
  "rstrip s = rev (dropWhile isspace (rev s))"

definition strip :: "string \<Rightarrow> string" where
  "strip s = lstrip (rstrip s)"

definition lower_char :: "char \<Rightarrow> char" where
  "lower_char c = (let n = (of_char c :: nat) in if 65 \<le> n \<and> n \<le> 90 then char_of (n + 32) else c)"

definition lower :: "string \<Rightarrow> string" where
  "lower s = map lower_char s"

definition startswith :: "string \<Rightarrow> string \<Rightarrow> bool" where
  "startswith s p = (take (length p) s = p)"

definition endswith :: "string \<Rightarrow> string \<Rightarrow> bool" where
  "endswith s p = (length p \<le> length s \<and> drop (length s - length p) s = p)"

fun contains :: "string \<Rightarrow> string \<Rightarrow> bool" where
  \<comment> \<open>\<^verbatim>\<open>sub in s\<close>\<close>
  "contains [] sub = (sub = [])"
| "contains (c # cs) sub = (startswith (c # cs) sub \<or> contains cs sub)"

definition partition_head :: "char \<Rightarrow> string \<Rightarrow> string" where
  \<comment> \<open>\<^verbatim>\<open>s.split(c, 1)[0]\<close>\<close>
  "partition_head c s = takeWhile (\<lambda>x. x \<noteq> c) s"

definition partition_tail :: "char \<Rightarrow> string \<Rightarrow> string" where
  \<comment> \<open>\<^verbatim>\<open>s.partition(c)[2]\<close>\<close>
  "partition_tail c s = drop 1 (dropWhile (\<lambda>x. x \<noteq> c) s)"

fun split :: "char \<Rightarrow> string \<Rightarrow> string list" where
  \<comment> \<open>\<^verbatim>\<open>s.split(c)\<close>\<close>
  "split c [] = [[]]"
| "split c (x # xs) = (if x = c then [] # split c xs
                       else (case split c xs of [] \<Rightarrow> [[x]] | p # ps \<Rightarrow> (x # p) # ps))"

fun join :: "string \<Rightarrow> string list \<Rightarrow> string" where
  \<comment> \<open>\<^verbatim>\<open>sep.join(xs)\<close>\<close>
  "join sep [] = []"
| "join sep [x] = x"
| "join sep (x # y # ys) = x @ sep @ join sep (y # ys)"

datatype error = ValueError | OSError

section \<open>The library calls of \<^verbatim>\<open>strip_chatgpt_utm\<close>\<close>

text \<open>
  \<^verbatim>\<open>urlsplit\<close>, \<^verbatim>\<open>parse_qsl\<close>, \<^verbatim>\<open>urlencode\<close> and \<^verbatim>\<open>urlunsplit\<close> follow
  \<^verbatim>\<open>urllib/parse.py\<close> of CPython 3.11. \<^verbatim>\<open>urlsplit\<close> raises \<^verbatim>\<open>ValueError\<close> on an
  authority with unbalanced brackets, on a bracketed host that \<^verbatim>\<open>ipaddress\<close> rejects, and
  on a non-ASCII authority that fails its NFKC check. The verdicts of the last two checks
  are not computed here: they are the two fields of a \<open>urllib\<close>, which every function
  that splits a URL takes as its first argument.
\<close>

record urllib =
  bracketed_host_ok :: "string \<Rightarrow> bool"
  checknetloc_ok :: "string \<Rightarrow> bool"

definition lenient :: urllib where
  "lenient = \<lparr>bracketed_host_ok = (\<lambda>h. True), checknetloc_ok = (\<lambda>n. True)\<rparr>"

record split_result =
  scheme :: string
  netloc :: string
  path :: string
  query :: string
  fragment :: string

definition c0_control_or_space :: "char \<Rightarrow> bool" where
  "c0_control_or_space c = ((of_char c :: nat) \<le> 32)"

definition unsafe_url_byte :: "char \<Rightarrow> bool" where
  "unsafe_url_byte c = (c = CHR 0x09 \<or> c = CHR 0x0D \<or> c = CHR 0x0A)"

definition ascii_alpha :: "char \<Rightarrow> bool" where
  "ascii_alpha c = (let n = (of_char c :: nat) in (65 \<le> n \<and> n \<le> 90) \<or> (97 \<le> n \<and> n \<le> 122))"

definition ascii_digit :: "char \<Rightarrow> bool" where
  "ascii_digit c = (let n = (of_char c :: nat) in 48 \<le> n \<and> n \<le> 57)"

definition scheme_char :: "char \<Rightarrow> bool" where
  "scheme_char c = (ascii_alpha c \<or> ascii_digit c \<or> c = CHR ''+'' \<or> c = CHR ''-'' \<or> c = CHR ''.'')"

definition isascii :: "string \<Rightarrow> bool" where
  "isascii s = list_all (\<lambda>c. (of_char c :: nat) < 128) s"

definition netloc_delim :: "char \<Rightarrow> bool" where
  "netloc_delim c = (c = CHR ''/'' \<or> c = CHR ''?'' \<or> c = CHR ''#'')"

definition uses_netloc :: "string list" where
  "uses_netloc = ['''', ''ftp'', ''http'', ''gopher'', ''nntp'', ''telnet'',
     ''imap'', ''wais'', ''file'', ''mms'', ''https'', ''shttp'',
     ''snews'', ''prospero'', ''rtsp'', ''rtsps'', ''rtspu'', ''rsync'',
     ''svn'', ''svn+ssh'', ''sftp'', ''nfs'', ''git'', ''git+ssh'',
     ''ws'', ''wss'']"

definition split_scheme :: "string \<Rightarrow> string \<times> string" where
  \<comment> \<open>the scheme is the text before the first colon, when that text is not empty, starts
      with an ASCII letter and has scheme characters only\<close>
  "split_scheme url =
     (let pre = partition_head CHR '':'' url in
      if CHR '':'' \<in> set url \<and> pre \<noteq> [] \<and> ascii_alpha (hd pre) \<and> list_all scheme_char pre
      then (lower pre, partition_tail CHR '':'' url)
      else ([], url))"

definition splitnetloc :: "string \<Rightarrow> string \<times> string" where
  "splitnetloc url =
     (if startswith url ''//''
      then (takeWhile (\<lambda>c. \<not> netloc_delim c) (drop 2 url),
            dropWhile (\<lambda>c. \<not> netloc_delim c) (drop 2 url))
      else ([], url))"

definition netloc_error :: "urllib \<Rightarrow> string \<Rightarrow> bool" where
  "netloc_error L n =
     ((CHR ''['' \<in> set n \<and> CHR '']'' \<notin> set n) \<or> (CHR '']'' \<in> set n \<and> CHR ''['' \<notin> set n)
      \<or> (CHR ''['' \<in> set n \<and> CHR '']'' \<in> set n
          \<and> \<not> bracketed_host_ok L (partition_head CHR '']'' (partition_tail CHR ''['' n)))
      \<or> (n \<noteq> [] \<and> \<not> isascii n \<and> \<not> checknetloc_ok L n))"

definition urlsplit :: "urllib \<Rightarrow> string \<Rightarrow> error + split_result" where
  "urlsplit L url0 =
     (let url1 = filter (\<lambda>c. \<not> unsafe_url_byte c) (dropWhile c0_control_or_space url0);
          (sch, url2) = split_scheme url1;
          (loc, url3) = splitnetloc url2
      in if netloc_error L loc then Inl ValueError
         else Inr \<lparr>scheme = sch, netloc = loc,
                   path = partition_head CHR ''?'' (partition_head CHR ''#'' url3),
                   query = partition_tail CHR ''?'' (partition_head CHR ''#'' url3),
                   fragment = partition_tail CHR ''#'' url3\<rparr>)"

definition urlunsplit :: "split_result \<Rightarrow> string" where
  "urlunsplit p =
     (let url = path p;
          url = (if netloc p \<noteq> [] \<or> (scheme p \<noteq> [] \<and> scheme p \<in> set uses_netloc)
                    \<or> startswith url ''//''
                 then ''//'' @ netloc p @ (if url \<noteq> [] \<and> \<not> startswith url ''/'' then ''/'' @ url else url)
                 else url);
          url = (if scheme p \<noteq> [] then scheme p @ '':'' @ url else url);
          url = (if query p \<noteq> [] then url @ ''?'' @ query p else url)
      in if fragment p \<noteq> [] then url @ ''#'' @ fragment p else url)"

subsection \<open>Percent escapes\<close>

definition hexval :: "char \<Rightarrow> nat option" where
  "hexval c =
     (let n = (of_char c :: nat) in
      if 48 \<le> n \<and> n \<le> 57 then Some (n - 48)
      else if 65 \<le> n \<and> n \<le> 70 then Some (n - 55)
      else if 97 \<le> n \<and> n \<le> 102 then Some (n - 87)
      else None)"

definition hexdigit :: "nat \<Rightarrow> char" where
  "hexdigit n = (if n < 10 then char_of (48 + n) else char_of (55 + n))"

fun unquote_to_bytes :: "string \<Rightarrow> string" where
  "unquote_to_bytes [] = []"
| "unquote_to_bytes (c # cs) =
     (if c = CHR ''%'' then
        (case cs of
           a # b # r \<Rightarrow>
             (case (hexval a, hexval b) of
                (Some x, Some y) \<Rightarrow> char_of (16 * x + y) # unquote_to_bytes r
              | _ \<Rightarrow> c # unquote_to_bytes cs)
         | _ \<Rightarrow> c # unquote_to_bytes cs)
      else c # unquote_to_bytes cs)"

definition cont :: "char \<Rightarrow> bool" where
  \<comment> \<open>a UTF-8 continuation byte\<close>
  "cont c = (let n = (of_char c :: nat) in 128 \<le> n \<and> n < 192)"

definition second_ok :: "char \<Rightarrow> char \<Rightarrow> bool" where
  \<comment> \<open>the second byte of a sequence of three or four bytes, after lead byte \<open>a\<close>: no
      overlong form, no surrogate, nothing above U+10FFFF\<close>
  "second_ok a b =
     (let m = (of_char a :: nat); n = (of_char b :: nat) in
      cont b \<and> (m = 224 \<longrightarrow> 160 \<le> n) \<and> (m = 237 \<longrightarrow> n < 160)
             \<and> (m = 240 \<longrightarrow> 144 \<le> n) \<and> (m = 244 \<longrightarrow> n < 144))"

definition replacement :: string where
  \<comment> \<open>U+FFFD in UTF-8\<close>
  "replacement = [CHR 0xEF, CHR 0xBF, CHR 0xBD]"

fun decode_replace :: "string \<Rightarrow> string" where
  \<comment> \<open>\<^verbatim>\<open>bytes.decode('utf-8', 'replace')\<close>, the result again in UTF-8: every maximal
      ill-formed run becomes U+FFFD\<close>
  "decode_replace [] = []"
| "decode_replace (a # r) =
     (let m = (of_char a :: nat) in
      if m < 128 then a # decode_replace r
      else if 194 \<le> m \<and> m < 224 then
        (case r of
           b # r1 \<Rightarrow> if cont b then a # b # decode_replace r1 else replacement @ decode_replace r
         | [] \<Rightarrow> replacement)
      else if 224 \<le> m \<and> m < 240 then
        (case r of
           b # r1 \<Rightarrow>
             if second_ok a b then
               (case r1 of
                  c # r2 \<Rightarrow> if cont c then a # b # c # decode_replace r2
                            else replacement @ decode_replace r1
                | [] \<Rightarrow> replacement)
             else replacement @ decode_replace r
         | [] \<Rightarrow> replacement)
      else if 240 \<le> m \<and> m < 245 then
        (case r of
           b # r1 \<Rightarrow>
             if second_ok a b then
               (case r1 of
                  c # r2 \<Rightarrow>
                    if cont c then
                      (case r2 of
                         d # r3 \<Rightarrow> if cont d then a # b # c # d # decode_replace r3
                                   else replacement @ decode_replace r2
                       | [] \<Rightarrow> replacement)
                    else replacement @ decode_replace r1
                | [] \<Rightarrow> replacement)
             else replacement @ decode_replace r
         | [] \<Rightarrow> replacement)
      else replacement @ decode_replace r)"

definition unquote :: "string \<Rightarrow> string" where
  \<comment> \<open>percent escapes become bytes, and the bytes are decoded as UTF-8 with replacement; on
      text without \<^verbatim>\<open>%\<close> this is the identity, the shortcut the library takes\<close>
  "unquote s = decode_replace (unquote_to_bytes s)"

definition unquote_plus :: "string \<Rightarrow> string" where
  "unquote_plus s = unquote (map (\<lambda>c. if c = CHR ''+'' then CHR '' '' else c) s)"

definition always_safe :: "char \<Rightarrow> bool" where
  "always_safe c = (ascii_alpha c \<or> ascii_digit c \<or> c = CHR ''_'' \<or> c = CHR ''.'' \<or> c = CHR ''-'' \<or> c = CHR ''~'')"

definition quote_byte :: "string \<Rightarrow> char \<Rightarrow> string" where
  "quote_byte safe c =
     (if always_safe c \<or> c \<in> set safe then [c]
      else [CHR ''%'', hexdigit ((of_char c :: nat) div 16), hexdigit ((of_char c :: nat) mod 16)])"

definition quote :: "string \<Rightarrow> string \<Rightarrow> string" where
  "quote s safe = concat (map (quote_byte safe) s)"

definition quote_plus :: "string \<Rightarrow> string" where
  "quote_plus s =
     (if CHR '' '' \<notin> set s then quote s []
      else map (\<lambda>c. if c = CHR '' '' then CHR ''+'' else c) (quote s '' ''))"

definition parse_qsl :: "string \<Rightarrow> (string \<times> string) list" where
  \<comment> \<open>with \<^verbatim>\<open>keep_blank_values=True\<close>: every non-empty field between \<^verbatim>\<open>&\<close> is a pair\<close>
  "parse_qsl qs =
     (if qs = [] then []
      else map (\<lambda>nv. (unquote_plus (partition_head CHR ''='' nv), unquote_plus (partition_tail CHR ''='' nv)))
             (filter (\<lambda>nv. nv \<noteq> []) (split CHR ''&'' qs)))"

definition urlencode :: "(string \<times> string) list \<Rightarrow> string" where
  "urlencode q = join ''&'' (map (\<lambda>(k, v). quote_plus k @ ''='' @ quote_plus v) q)"

section \<open>The link annotator\<close>

definition SKIP_URL_SUBSTRINGS :: "string list" where
  "SKIP_URL_SUBSTRINGS = [''img.shields.io'']"

definition ASSET_SUFFIXES :: "string list" where
  "ASSET_SUFFIXES = [''.png'', ''.svg'', ''.jpg'', ''.jpeg'', ''.gif'', ''.webp'', ''.pdf'']"

definition strip_fragment_and_query :: "string \<Rightarrow> string" where
  "strip_fragment_and_query url = strip (partition_head CHR ''?'' (partition_head CHR ''#'' url))"

definition is_asset_link :: "string \<Rightarrow> bool" where
  "is_asset_link url =
     (let clean = lower (strip_fragment_and_query url) in list_ex (endswith clean) ASSET_SUFFIXES)"

definition should_skip_external :: "string \<Rightarrow> bool" where
  "should_skip_external url = (list_ex (contains url) SKIP_URL_SUBSTRINGS \<or> is_asset_link url)"

definition strip_chatgpt_utm :: "urllib \<Rightarrow> string \<Rightarrow> error + string" where
  "strip_chatgpt_utm L url =
     (if \<not> contains url ''utm_source=chatgpt.com'' then Inr url
      else
        (case urlsplit L url of
           Inl e \<Rightarrow> Inl e
         | Inr parts \<Rightarrow>
             let query_pairs = parse_qsl (query parts);
                 filtered = filter (\<lambda>(k, v). \<not> (k = ''utm_source'' \<and> v = ''chatgpt.com'')) query_pairs;
                 new_query = urlencode filtered
             in Inr (urlunsplit (parts\<lparr>query := new_query\<rparr>))))"

definition target_blank_here :: "string \<Rightarrow> bool" where
  \<comment> \<open>the pattern \<^verbatim>\<open>target\s*=\s*("_blank"|_blank)\<close> matches at the start of \<open>s\<close>\<close>
  "target_blank_here s =
     (startswith s ''target'' \<and>
      (case dropWhile isspace (drop 6 s) of
         e # r \<Rightarrow> e = CHR ''='' \<and>
           (let v = dropWhile isspace r
            in startswith v (CHR 0x22 # ''_blank'' @ [CHR 0x22]) \<or> startswith v ''_blank'')
       | [] \<Rightarrow> False))"

fun attrs_already_have_target_blank :: "string \<Rightarrow> bool" where
  \<comment> \<open>\<^verbatim>\<open>re.search\<close>: the pattern matches at some position\<close>
  "attrs_already_have_target_blank [] = False"
| "attrs_already_have_target_blank (c # cs) =
     (target_blank_here (c # cs) \<or> attrs_already_have_target_blank cs)"

definition normalize_to_brace_attrs :: "string \<Rightarrow> string" where
  "normalize_to_brace_attrs existing_attrs =
     (let inner = strip (butlast (drop 1 (strip existing_attrs)))
      in if startswith inner '':'' then strip (drop 1 inner) else inner)"

definition add_target_blank :: "urllib \<Rightarrow> string \<Rightarrow> string \<Rightarrow> string option \<Rightarrow> error + string" where
  \<comment> \<open>the replacement of one match, from its groups \<open>text\<close>, \<open>url\<close> and \<open>attrs\<close>\<close>
  "add_target_blank L text url0 existing_attrs =
     (case strip_chatgpt_utm L url0 of
        Inl e \<Rightarrow> Inl e
      | Inr url \<Rightarrow>
          let link = ''['' @ text @ '']('' @ url @ '')'' in
          if should_skip_external url then
            Inr (link @ (case existing_attrs of None \<Rightarrow> [] | Some a \<Rightarrow> a))
          else
            (case existing_attrs of
               Some a \<Rightarrow>
                 if a \<noteq> [] then
                   (if attrs_already_have_target_blank a then Inr (link @ a)
                    else
                      let inner = normalize_to_brace_attrs a in
                      if inner \<noteq> [] then Inr (link @ ''{ '' @ inner @ '' target=_blank }'')
                      else Inr (link @ ''{ target=_blank }''))
                 else Inr (link @ ''{target=_blank}'')
             | None \<Rightarrow> Inr (link @ ''{target=_blank}'')))"

subsection \<open>The two link patterns\<close>

text \<open>
  Both patterns are sequences of literal characters and greedy negated classes, each
  followed by the one character its class excludes, so a match at a position is unique and
  is found without backtracking: a class takes the longest run it can. A matcher returns
  the groups and the text after the match. The lookbehind \<^verbatim>\<open>(?<!\!)\<close> is the flag \<open>bang\<close>
  of the scan: the character before the position is an exclamation mark.
\<close>

definition bracket_text :: "string \<Rightarrow> (string \<times> string) option" where
  \<comment> \<open>\<^verbatim>\<open>\[(?P<text>[^\]]+)\]\(\<close>\<close>
  "bracket_text s =
     (case s of
        c # r \<Rightarrow>
          if c = CHR ''['' then
            (let text = takeWhile (\<lambda>x. x \<noteq> CHR '']'') r in
             if text = [] then None
             else (case dropWhile (\<lambda>x. x \<noteq> CHR '']'') r of
                     a # b # r1 \<Rightarrow> if b = CHR ''('' then Some (text, r1) else None
                   | _ \<Rightarrow> None))
          else None
      | [] \<Rightarrow> None)"

definition paren_rest :: "string \<Rightarrow> (string \<times> string) option" where
  \<comment> \<open>\<^verbatim>\<open>[^)]+\)\<close>\<close>
  "paren_rest s =
     (let dest = takeWhile (\<lambda>x. x \<noteq> CHR '')'') s in
      if dest = [] then None
      else (case dropWhile (\<lambda>x. x \<noteq> CHR '')'') s of
              a # r \<Rightarrow> Some (dest, r)
            | [] \<Rightarrow> None))"

definition MARKDOWN_LINK_PATTERN :: "string \<Rightarrow> (string \<times> string \<times> string) option" where
  \<comment> \<open>groups \<open>text\<close> and \<open>dest\<close>, and the text after the match\<close>
  "MARKDOWN_LINK_PATTERN s =
     (case bracket_text s of
        None \<Rightarrow> None
      | Some (text, r) \<Rightarrow>
          (case paren_rest r of
             None \<Rightarrow> None
           | Some (dest, r1) \<Rightarrow> Some (text, dest, r1)))"

definition brace_attrs :: "string \<Rightarrow> (string option \<times> string)" where
  \<comment> \<open>\<^verbatim>\<open>(?P<attrs>\{[^}]*\})?\<close>\<close>
  "brace_attrs s =
     (case s of
        c # r \<Rightarrow>
          if c = CHR ''{'' then
            (case dropWhile (\<lambda>x. x \<noteq> CHR ''}'') r of
               a # r1 \<Rightarrow> (Some (c # takeWhile (\<lambda>x. x \<noteq> CHR ''}'') r @ [a]), r1)
             | [] \<Rightarrow> (None, s))
          else (None, s)
      | [] \<Rightarrow> (None, s))"

definition MARKDOWN_HTTP_LINK_PATTERN ::
  "string \<Rightarrow> (string \<times> string \<times> string option \<times> string) option" where
  \<comment> \<open>groups \<open>text\<close>, \<open>url\<close> and \<open>attrs\<close>, and the text after the match\<close>
  "MARKDOWN_HTTP_LINK_PATTERN s =
     (case bracket_text s of
        None \<Rightarrow> None
      | Some (text, r) \<Rightarrow>
          if startswith r ''http'' then
            (case paren_rest (drop 4 r) of
               None \<Rightarrow> None
             | Some (u, r1) \<Rightarrow>
                 (case brace_attrs r1 of (attrs, r2) \<Rightarrow> Some (text, ''http'' @ u, attrs, r2)))
          else None)"

lemma dropWhile_Cons_shorter: "dropWhile P s = a # r \<Longrightarrow> length r < length s"
  using length_dropWhile_le [of P s] by simp

lemma paren_rest_shorter: "paren_rest s = Some (d, r) \<Longrightarrow> length r < length s"
  unfolding paren_rest_def Let_def
  by (simp split: if_splits list.splits add: dropWhile_Cons_shorter)

lemma bracket_text_shorter: "bracket_text s = Some (t, r) \<Longrightarrow> length r < length s"
proof -
  assume a: "bracket_text s = Some (t, r)"
  then obtain c s' x where s: "s = c # s'" and d: "dropWhile (\<lambda>x. x \<noteq> CHR '']'') s' = x # CHR ''('' # r"
    unfolding bracket_text_def Let_def
    by (simp split: if_splits list.splits)
  from d have "length (CHR ''('' # r) < length s'" by (rule dropWhile_Cons_shorter)
  with s show ?thesis by simp
qed

lemma brace_attrs_shorter: "brace_attrs s = (a, r) \<Longrightarrow> length r \<le> length s"
proof (cases s)
  case Nil
  then show "brace_attrs s = (a, r) \<Longrightarrow> length r \<le> length s" by (simp add: brace_attrs_def)
next
  case (Cons c s')
  assume a: "brace_attrs s = (a, r)"
  show "length r \<le> length s"
  proof (cases "c = CHR ''{''")
    case False
    with a Cons show ?thesis by (simp add: brace_attrs_def)
  next
    case True
    show ?thesis
    proof (cases "dropWhile (\<lambda>x. x \<noteq> CHR ''}'') s'")
      case Nil
      with a Cons True show ?thesis by (simp add: brace_attrs_def)
    next
      case (Cons x r1)
      then have "length r1 < length s'" by (rule dropWhile_Cons_shorter)
      with a \<open>s = c # s'\<close> True Cons show ?thesis by (simp add: brace_attrs_def)
    qed
  qed
qed

lemma link_pattern_shorter:
  assumes "MARKDOWN_LINK_PATTERN s = Some (t, d, r)"
  shows "length r < length s"
proof -
  from assms obtain r0 where b: "bracket_text s = Some (t, r0)" and p: "paren_rest r0 = Some (d, r)"
    unfolding MARKDOWN_LINK_PATTERN_def by (simp split: option.splits prod.splits)
  from bracket_text_shorter [OF b] paren_rest_shorter [OF p] show ?thesis by simp
qed

lemma http_link_pattern_shorter:
  assumes "MARKDOWN_HTTP_LINK_PATTERN s = Some (t, u, a, r)"
  shows "length r < length s"
proof -
  from assms obtain r0 u0 r1 where b: "bracket_text s = Some (t, r0)"
    and p: "paren_rest (drop 4 r0) = Some (u0, r1)" and c: "brace_attrs r1 = (a, r)"
    unfolding MARKDOWN_HTTP_LINK_PATTERN_def
    by (simp split: option.splits prod.splits if_splits)
  from bracket_text_shorter [OF b] paren_rest_shorter [OF p] brace_attrs_shorter [OF c]
  show ?thesis by simp
qed

function finditer :: "bool \<Rightarrow> string \<Rightarrow> (string \<times> string) list" where
  \<comment> \<open>\<^verbatim>\<open>MARKDOWN_LINK_PATTERN.finditer\<close>: the groups \<open>text\<close> and \<open>dest\<close> of the matches, left
      to right; a match ends in a parenthesis, so the scan goes on with \<open>bang\<close> false\<close>
  "finditer bang [] = []"
| "finditer bang (c # cs) =
     (case (if bang then None else MARKDOWN_LINK_PATTERN (c # cs)) of
        Some (text, dest, rest) \<Rightarrow> (text, dest) # finditer False rest
      | None \<Rightarrow> finditer (c = CHR ''!'') cs)"
  by pat_completeness auto
termination
proof (relation "measure (\<lambda>(b, s). length s)")
  show "wf (measure (\<lambda>(b, s). length s))" by simp
next
  fix bang c cs
  show "((c = CHR ''!'', cs), (bang, c # cs)) \<in> measure (\<lambda>(b, s). length s)" by simp
next
  fix bang :: bool and c cs x2 x y x2a xa ya
  assume "(if bang then None else MARKDOWN_LINK_PATTERN (c # cs)) = Some x2"
    and "(x, y) = x2" and "(xa, ya) = y"
  then have "MARKDOWN_LINK_PATTERN (c # cs) = Some (x, xa, ya)"
    by (simp split: if_splits)
  from link_pattern_shorter [OF this]
  show "((False, ya), (bang, c # cs)) \<in> measure (\<lambda>(b, s). length s)" by simp
qed

function sub ::
  "(string \<Rightarrow> string \<Rightarrow> string option \<Rightarrow> error + string) \<Rightarrow> bool \<Rightarrow> string \<Rightarrow> error + string" where
  \<comment> \<open>\<^verbatim>\<open>MARKDOWN_HTTP_LINK_PATTERN.sub(repl, content)\<close>: every match, left to right, is
      replaced by what \<open>repl\<close> returns for its groups; the first exception of \<open>repl\<close> ends
      the call\<close>
  "sub repl bang [] = Inr []"
| "sub repl bang (c # cs) =
     (case (if bang then None else MARKDOWN_HTTP_LINK_PATTERN (c # cs)) of
        Some (text, url, attrs, rest) \<Rightarrow>
          (case repl text url attrs of
             Inl e \<Rightarrow> Inl e
           | Inr new \<Rightarrow>
               (case sub repl False rest of Inl e \<Rightarrow> Inl e | Inr out \<Rightarrow> Inr (new @ out)))
      | None \<Rightarrow>
          (case sub repl (c = CHR ''!'') cs of Inl e \<Rightarrow> Inl e | Inr out \<Rightarrow> Inr (c # out)))"
  by pat_completeness auto
termination
proof (relation "measure (\<lambda>(f, b, s). length s)")
  show "wf (measure (\<lambda>(f, b, s). length s))" by simp
next
  fix repl :: "string \<Rightarrow> string \<Rightarrow> string option \<Rightarrow> error + string" and bang c cs
  show "((repl, c = CHR ''!'', cs), (repl, bang, c # cs)) \<in> measure (\<lambda>(f, b, s). length s)" by simp
next
  fix repl :: "string \<Rightarrow> string \<Rightarrow> string option \<Rightarrow> error + string"
    and bang :: bool and c cs x2 x y xa ya xb yb b
  assume "(if bang then None else MARKDOWN_HTTP_LINK_PATTERN (c # cs)) = Some x2"
    and "(x, y) = x2" and "(xa, ya) = y" and "(xb, yb) = ya"
  then have "MARKDOWN_HTTP_LINK_PATTERN (c # cs) = Some (x, xa, xb, yb)"
    by (simp split: if_splits)
  from http_link_pattern_shorter [OF this]
  show "((repl, False, yb), (repl, bang, c # cs)) \<in> measure (\<lambda>(f, b, s). length s)" by simp
qed

section \<open>Paths and files\<close>

text \<open>
  A \<^verbatim>\<open>pathlib.Path\<close> on POSIX is its root (empty for a relative path) and its names;
  parsing drops empty names and single dots and keeps \<^verbatim>\<open>..\<close>.
\<close>

record posix_path =
  root :: string
  names :: "string list"

definition Path :: "string \<Rightarrow> posix_path" where
  "Path s =
     \<lparr>root = (if startswith s ''/''
              then (if length (takeWhile (\<lambda>c. c = CHR ''/'') s) = 2 then ''//'' else ''/'')
              else []),
      names = filter (\<lambda>x. x \<noteq> [] \<and> x \<noteq> ''.'') (split CHR ''/'' s)\<rparr>"

definition str :: "posix_path \<Rightarrow> string" where
  "str p = (let s = root p @ join ''/'' (names p) in if s = [] then ''.'' else s)"

definition joinpath :: "posix_path \<Rightarrow> string \<Rightarrow> posix_path" where
  \<comment> \<open>\<^verbatim>\<open>p / s\<close>\<close>
  "joinpath p s =
     (let q = Path s in if root q \<noteq> [] then q else p\<lparr>names := names p @ names q\<rparr>)"

definition parent :: "posix_path \<Rightarrow> posix_path" where
  "parent p = p\<lparr>names := butlast (names p)\<rparr>"

text \<open>
  The file system is a working directory and a partial map from absolute positions (lists
  of names below the root) to nodes; the root itself is a directory. A path is resolved
  name by name as the kernel of Linux does it, \<^verbatim>\<open>..\<close> stepping to the parent. A step from
  a position that holds nothing fails with \<^verbatim>\<open>ENOENT\<close>, a step from a file with
  \<^verbatim>\<open>ENOTDIR\<close>, and a step in a directory to a name of more than \<^verbatim>\<open>NAME_MAX\<close> bytes with
  \<^verbatim>\<open>ENAMETOOLONG\<close>, as does every path of \<^verbatim>\<open>PATH_MAX\<close> bytes or more. A path with a NUL
  byte in it does not reach the kernel: Python raises \<^verbatim>\<open>ValueError\<close> for it. There are no
  symbolic links and no permissions, so \<^verbatim>\<open>ELOOP\<close> and \<^verbatim>\<open>EACCES\<close> do not arise. Text is
  read with universal newlines and written as it is, as on POSIX.
\<close>

datatype node = File string | Dir

record fsys =
  cwd :: "string list"
  nodes :: "string list \<rightharpoonup> node"

datatype errno = ENOENT | ENOTDIR | ENAMETOOLONG

definition NAME_MAX :: nat where
  "NAME_MAX = 255"

definition PATH_MAX :: nat where
  "PATH_MAX = 4096"

definition node_at :: "fsys \<Rightarrow> string list \<Rightarrow> node option" where
  "node_at fs pos = (if pos = [] then Some Dir else nodes fs pos)"

fun locate :: "fsys \<Rightarrow> string list \<Rightarrow> string list \<Rightarrow> errno + string list" where
  "locate fs pos [] = Inr pos"
| "locate fs pos (c # cs) =
     (case node_at fs pos of
        None \<Rightarrow> Inl ENOENT
      | Some (File bytes) \<Rightarrow> Inl ENOTDIR
      | Some Dir \<Rightarrow>
          if NAME_MAX < length c then Inl ENAMETOOLONG
          else locate fs (if c = ''..'' then butlast pos else pos @ [c]) cs)"

definition walk :: "fsys \<Rightarrow> posix_path \<Rightarrow> errno + string list" where
  \<comment> \<open>the position that the kernel resolves a path to; the last name need not be there\<close>
  "walk fs p =
     (if PATH_MAX \<le> length (str p) then Inl ENAMETOOLONG
      else locate fs (if root p = [] then cwd fs else []) (names p))"

definition embedded_null :: "posix_path \<Rightarrow> bool" where
  "embedded_null p = (CHR 0x00 \<in> set (str p))"

definition position :: "fsys \<Rightarrow> posix_path \<Rightarrow> string list option" where
  "position fs p = (case walk fs p of Inl e \<Rightarrow> None | Inr pos \<Rightarrow> Some pos)"

definition stat :: "fsys \<Rightarrow> posix_path \<Rightarrow> errno + node" where
  "stat fs p =
     (case walk fs p of
        Inl e \<Rightarrow> Inl e
      | Inr pos \<Rightarrow> (case node_at fs pos of None \<Rightarrow> Inl ENOENT | Some n \<Rightarrow> Inr n))"

definition ignore_error :: "errno \<Rightarrow> bool" where
  \<comment> \<open>\<^verbatim>\<open>pathlib._ignore_error\<close>; its \<^verbatim>\<open>EBADF\<close> and \<^verbatim>\<open>ELOOP\<close> do not arise here\<close>
  "ignore_error e = (e = ENOENT \<or> e = ENOTDIR)"

definition exists :: "fsys \<Rightarrow> posix_path \<Rightarrow> error + bool" where
  \<comment> \<open>\<^verbatim>\<open>Path.exists\<close>: \<^verbatim>\<open>False\<close> on the \<^verbatim>\<open>ValueError\<close> of a NUL byte and on an
      \<^verbatim>\<open>OSError\<close> that \<^verbatim>\<open>_ignore_error\<close> accepts; any other \<^verbatim>\<open>OSError\<close> is raised again\<close>
  "exists fs p =
     (if embedded_null p then Inr False
      else
        (case stat fs p of
           Inr n \<Rightarrow> Inr True
         | Inl e \<Rightarrow> if ignore_error e then Inr False else Inl OSError))"

fun universal_newlines :: "string \<Rightarrow> string" where
  "universal_newlines [] = []"
| "universal_newlines [c] = (if c = CHR 0x0D then [CHR 0x0A] else [c])"
| "universal_newlines (c # d # r) =
     (if c = CHR 0x0D then
        (if d = CHR 0x0A then CHR 0x0A # universal_newlines r
         else CHR 0x0A # universal_newlines (d # r))
      else c # universal_newlines (d # r))"

definition read_text :: "fsys \<Rightarrow> posix_path \<Rightarrow> error + string" where
  \<comment> \<open>\<^verbatim>\<open>OSError\<close> when the path is no file, \<^verbatim>\<open>UnicodeDecodeError\<close> (a \<^verbatim>\<open>ValueError\<close>)
      when its bytes are not UTF-8\<close>
  "read_text fs p =
     (if embedded_null p then Inl ValueError
      else
        (case position fs p of
           None \<Rightarrow> Inl OSError
         | Some pos \<Rightarrow>
             (case node_at fs pos of
                Some (File bytes) \<Rightarrow>
                  if decode_replace bytes = bytes then Inr (universal_newlines bytes)
                  else Inl ValueError
              | _ \<Rightarrow> Inl OSError)))"

definition write_text :: "fsys \<Rightarrow> posix_path \<Rightarrow> string \<Rightarrow> error + fsys" where
  \<comment> \<open>opening for writing creates or truncates the file; it fails on a directory and
      where the directory of the file is missing\<close>
  "write_text fs p s =
     (if embedded_null p then Inl ValueError
      else
        (case position fs p of
           None \<Rightarrow> Inl OSError
         | Some pos \<Rightarrow>
             (case node_at fs pos of
                Some Dir \<Rightarrow> Inl OSError
              | Some (File old) \<Rightarrow> Inr (fs\<lparr>nodes := (nodes fs)(pos \<mapsto> File s)\<rparr>)
              | None \<Rightarrow>
                  if node_at fs (butlast pos) = Some Dir
                  then Inr (fs\<lparr>nodes := (nodes fs)(pos \<mapsto> File s)\<rparr>)
                  else Inl OSError)))"

definition unlink :: "fsys \<Rightarrow> posix_path \<Rightarrow> error + fsys" where
  "unlink fs p =
     (if embedded_null p then Inl ValueError
      else
        (case position fs p of
           None \<Rightarrow> Inl OSError
         | Some pos \<Rightarrow>
             (case node_at fs pos of
                Some (File old) \<Rightarrow> Inr (fs\<lparr>nodes := (nodes fs)(pos := None)\<rparr>)
              | _ \<Rightarrow> Inl OSError)))"

definition append_target_blank_to_http_links :: "urllib \<Rightarrow> fsys \<Rightarrow> posix_path \<Rightarrow> error + (fsys \<times> bool)" where
  \<comment> \<open>the file system after the call and the value returned\<close>
  "append_target_blank_to_http_links L fs file_path =
     (case read_text fs file_path of
        Inl e \<Rightarrow> Inl e
      | Inr content \<Rightarrow>
          (case sub (add_target_blank L) False content of
             Inl e \<Rightarrow> Inl e
           | Inr updated \<Rightarrow>
               if updated \<noteq> content then
                 (case write_text fs file_path updated of
                    Inl e \<Rightarrow> Inl e
                  | Inr fs' \<Rightarrow> Inr (fs', True))
               else Inr (fs, False)))"

section \<open>The internal link checker\<close>

definition candidates_for_quarto_source :: "posix_path \<Rightarrow> string \<Rightarrow> posix_path \<Rightarrow> posix_path list" where
  "candidates_for_quarto_source file_path link repo_root =
     (let clean = strip (partition_head CHR ''?'' (partition_head CHR ''#'' link));
          clean = (if endswith clean ''.html'' then take (length clean - 5) clean else clean);
          is_dir = endswith clean ''/'';
          clean = (if is_dir then rev (dropWhile (\<lambda>c. c = CHR ''/'') (rev clean)) else clean);
          base = (if startswith clean ''/''
                  then joinpath repo_root (dropWhile (\<lambda>c. c = CHR ''/'') clean)
                  else joinpath (parent file_path) clean)
      in if is_dir then [joinpath base ''index.qmd'', joinpath base ''index.md'']
         else [Path (str base @ ''.qmd''), Path (str base @ ''.md''),
               joinpath base ''index.qmd'', joinpath base ''index.md''])"

definition is_templated_link :: "string \<Rightarrow> bool" where
  "is_templated_link dest = (let d = strip dest in startswith d ''{{<'' \<or> startswith d ''{{%'')"

datatype verdict = Skipped | Resolved | Broken "string \<times> posix_path list"

fun any_exists :: "fsys \<Rightarrow> posix_path list \<Rightarrow> error + bool" where
  \<comment> \<open>\<^verbatim>\<open>any(p.exists() for p in cands)\<close>: the paths are asked in order, up to the first that
      exists or the first exception\<close>
  "any_exists fs [] = Inr False"
| "any_exists fs (p # ps) =
     (case exists fs p of
        Inl e \<Rightarrow> Inl e
      | Inr found \<Rightarrow> if found then Inr True else any_exists fs ps)"

definition check_link :: "urllib \<Rightarrow> fsys \<Rightarrow> posix_path \<Rightarrow> posix_path \<Rightarrow> string \<Rightarrow> error + verdict" where
  \<comment> \<open>the body of the loop of \<^verbatim>\<open>check_internal_links\<close> for the group \<open>dest\<close> of one match:
      \<open>Skipped\<close> is a \<^verbatim>\<open>continue\<close>, \<open>Broken\<close> an entry appended to \<^verbatim>\<open>broken\<close>\<close>
  "check_link L fs file_path repo_root dest =
     (case strip_chatgpt_utm L (strip dest) of
        Inl e \<Rightarrow> Inl e
      | Inr link \<Rightarrow>
          if is_templated_link link then Inr Skipped
          else if list_ex (startswith link) [''http://'', ''https://'', ''mailto:'', ''#'', ''tel:'']
            then Inr Skipped
          else if link \<in> set [''{nc[k]}''] then Inr Skipped
          else if list_ex (contains link) SKIP_URL_SUBSTRINGS then Inr Skipped
          else if is_asset_link link then Inr Skipped
          else if contains link ''_news'' then Inr Skipped
          else
            let cands = candidates_for_quarto_source file_path link repo_root in
            (case any_exists fs cands of
               Inl e \<Rightarrow> Inl e
             | Inr found \<Rightarrow> if \<not> found then Inr (Broken (link, cands)) else Inr Resolved))"

fun check_links :: "urllib \<Rightarrow> fsys \<Rightarrow> posix_path \<Rightarrow> posix_path \<Rightarrow> string list \<Rightarrow> error + (string \<times> posix_path list) list" where
  \<comment> \<open>the loop over the matches; the first exception ends it\<close>
  "check_links L fs file_path repo_root [] = Inr []"
| "check_links L fs file_path repo_root (dest # dests) =
     (case check_link L fs file_path repo_root dest of
        Inl e \<Rightarrow> Inl e
      | Inr v \<Rightarrow>
          (case check_links L fs file_path repo_root dests of
             Inl e \<Rightarrow> Inl e
           | Inr broken \<Rightarrow> Inr (case v of Broken b \<Rightarrow> b # broken | _ \<Rightarrow> broken)))"

definition check_internal_links :: "urllib \<Rightarrow> fsys \<Rightarrow> posix_path \<Rightarrow> posix_path \<Rightarrow> error + (string \<times> posix_path list) list" where
  "check_internal_links L fs file_path repo_root =
     (case read_text fs file_path of
        Inl e \<Rightarrow> Inl e
      | Inr content \<Rightarrow> check_links L fs file_path repo_root (map snd (finditer False content)))"

section \<open>The report writer\<close>

record environ =
  repo :: "string option"
  server :: string

definition relative_to :: "posix_path \<Rightarrow> posix_path \<Rightarrow> error + posix_path" where
  "relative_to p other =
     (if root p = root other \<and> take (length (names other)) (names p) = names other
      then Inr \<lparr>root = [], names = drop (length (names other)) (names p)\<rparr>
      else Inl ValueError)"

fun report_text ::
  "environ \<Rightarrow> posix_path \<Rightarrow> (posix_path \<times> (string \<times> posix_path list) list) list \<Rightarrow> string \<times> error option" where
  \<comment> \<open>what the loop writes, and the exception that ends it, if any\<close>
  "report_text E repo_root [] = ([], None)"
| "report_text E repo_root ((src_file, items) # groups) =
     (case relative_to src_file repo_root of
        Inl e \<Rightarrow> ([], Some e)
      | Inr r \<Rightarrow>
          let rel = str r;
              heading =
                (case repo E of
                   Some rp \<Rightarrow>
                     if rp \<noteq> [] then
                       ''## In ['' @ rel @ '']('' @ server E @ ''/'' @ rp @ ''/edit/main/'' @ rel
                         @ '')'' @ [CHR 0x0A, CHR 0x0A]
                     else ''## In `'' @ rel @ ''`'' @ [CHR 0x0A, CHR 0x0A]
                 | None \<Rightarrow> ''## In `'' @ rel @ ''`'' @ [CHR 0x0A, CHR 0x0A]);
              listing =
                concat (map (\<lambda>(link, cands). CHR 0x0A # ''```sh'' @ [CHR 0x0A] @ link @ [CHR 0x0A] @ ''```'' @ [CHR 0x0A]) items);
              (more, e) = report_text E repo_root groups
          in (heading @ ''The following links are broken:'' @ listing @ [CHR 0x0A] @ more, e))"

definition write_broken_links_report ::
  "environ \<Rightarrow> fsys \<Rightarrow> (posix_path \<times> (string \<times> posix_path list) list) list \<Rightarrow> posix_path \<Rightarrow> fsys \<times> error option" where
  \<comment> \<open>\<open>broken\<close> is the dictionary as its items in insertion order; the result is the file
      system after the call and the exception raised, if any\<close>
  "write_broken_links_report E fs broken repo_root =
     (let report_path = Path ''broken_links.md'' in
      if broken = [] then
        (case exists fs report_path of
           Inl e \<Rightarrow> (fs, Some e)
         | Inr found \<Rightarrow>
             if found then
               (case unlink fs report_path of Inl e \<Rightarrow> (fs, Some e) | Inr fs' \<Rightarrow> (fs', None))
             else (fs, None))
      else
        (case write_text fs report_path [] of
           Inl e \<Rightarrow> (fs, Some e)
         | Inr fs1 \<Rightarrow>
             (case report_text E repo_root (sort_key (\<lambda>x. str (fst x)) broken) of
                (text, e) \<Rightarrow>
                  (case write_text fs1 report_path text of
                     Inl e' \<Rightarrow> (fs1, Some e')
                   | Inr fs' \<Rightarrow> (fs', e)))))"

section \<open>The ignore-list normalizer\<close>

definition linebreak :: "char \<Rightarrow> bool" where
  \<comment> \<open>the ASCII line boundaries of \<^verbatim>\<open>str.splitlines\<close>\<close>
  "linebreak c = (let n = (of_char c :: nat) in (10 \<le> n \<and> n \<le> 13) \<or> (28 \<le> n \<and> n \<le> 30))"

fun splitlines :: "string \<Rightarrow> string list" where
  "splitlines [] = []"
| "splitlines (c # cs) =
     (if linebreak c then
        (if c = CHR 0x0D \<and> startswith cs [CHR 0x0A] then splitlines cs else [] # splitlines cs)
      else (case splitlines cs of [] \<Rightarrow> [[c]] | l # ls \<Rightarrow> (c # l) # ls))"

fun classify :: "string list \<Rightarrow> string list \<times> string list" where
  \<comment> \<open>the first loop: the lists \<open>comments\<close> and \<open>entries\<close>\<close>
  "classify [] = ([], [])"
| "classify (line # lines) =
     (let s = strip line; (comments, entries) = classify lines in
      if s = [] then (comments, entries)
      else if startswith s ''#'' then (rstrip line # comments, entries)
      else (comments, s # entries))"

fun dedupe :: "string set \<Rightarrow> string list \<Rightarrow> string list" where
  \<comment> \<open>the second loop, from the set \<open>seen_lower\<close>\<close>
  "dedupe seen_lower [] = []"
| "dedupe seen_lower (e # es) =
     (let key = lower e in
      if key \<in> seen_lower then dedupe seen_lower es
      else e # dedupe (insert key seen_lower) es)"

definition out_text :: "string \<Rightarrow> string" where
  \<comment> \<open>the text \<^verbatim>\<open>out_text\<close> that \<^verbatim>\<open>sort_lycheeignore_file\<close> computes from the text of the
      file; \<^verbatim>\<open>sorted\<close> is stable, as \<^const>\<open>sort_key\<close> is\<close>
  "out_text text =
     (let original = splitlines text;
          (comments, entries) = classify original;
          deduped = dedupe {} entries;
          deduped_sorted = sort_key lower deduped;
          out_lines = (if comments \<noteq> [] then comments @ [[]] else []) @ deduped_sorted
      in rstrip (join [CHR 0x0A] out_lines) @ [CHR 0x0A])"

definition sort_lycheeignore_file :: "fsys \<Rightarrow> posix_path \<Rightarrow> error + (fsys \<times> bool)" where
  "sort_lycheeignore_file fs p =
     (case exists fs p of
        Inl e \<Rightarrow> Inl e
      | Inr found \<Rightarrow>
          if \<not> found then Inr (fs, False)
          else
            (case read_text fs p of
               Inl e \<Rightarrow> Inl e
             | Inr text \<Rightarrow>
                 (case read_text fs p of
                    Inl e \<Rightarrow> Inl e
                  | Inr before \<Rightarrow>
                      if before \<noteq> out_text text then
                        (case write_text fs p (out_text text) of
                           Inl e \<Rightarrow> Inl e
                         | Inr fs' \<Rightarrow> Inr (fs', True))
                      else Inr (fs, False))))"

section \<open>Properties of the link annotator\<close>

lemma startswith_append: "startswith s p \<longleftrightarrow> (\<exists>r. s = p @ r)"
  unfolding startswith_def
  by (metis append_eq_conv_conj append_take_drop_id)

lemma not_isspace_eq: "\<not> isspace CHR ''=''"
  by (simp add: isspace_def)

lemma not_isspace_underscore: "\<not> isspace CHR ''_''"
  by (simp add: isspace_def)


lemma target_blank_here_plain: "target_blank_here (''target=_blank'' @ r)"
  by (simp add: target_blank_here_def startswith_def not_isspace_eq not_isspace_underscore)


lemma search_plain: "contains a ''target=_blank'' \<Longrightarrow> attrs_already_have_target_blank a"
proof (induction a)
  case Nil
  then show ?case by simp
next
  case (Cons c cs)
  show ?case
  proof (cases "startswith (c # cs) ''target=_blank''")
    case True
    then obtain r where "c # cs = ''target=_blank'' @ r"
      unfolding startswith_append by blast
    then have "target_blank_here (c # cs)"
      using target_blank_here_plain [of r] by simp
    then show ?thesis by simp
  next
    case False
    with Cons show ?thesis by simp
  qed
qed


lemma http_pattern_nonempty: "MARKDOWN_HTTP_LINK_PATTERN s = Some m \<Longrightarrow> s \<noteq> []"
  by (auto simp: MARKDOWN_HTTP_LINK_PATTERN_def bracket_text_def)

lemma sub_at_match:
  assumes "MARKDOWN_HTTP_LINK_PATTERN s = Some (t, u, a, r)"
  shows "sub repl False s =
         (case repl t u a of
            Inl e \<Rightarrow> Inl e
          | Inr new \<Rightarrow> (case sub repl False r of Inl e \<Rightarrow> Inl e | Inr out \<Rightarrow> Inr (new @ out)))"
proof -
  from assms have "s \<noteq> []" by (rule http_pattern_nonempty)
  then obtain c cs where s: "s = c # cs" by (cases s) auto
  with assms show ?thesis by simp
qed





subsection \<open>Where the scan finds a link\<close>

lemma bracket_text_needs_bracket: "c \<noteq> CHR ''['' \<Longrightarrow> bracket_text (c # cs) = None"
  by (simp add: bracket_text_def)

lemma http_pattern_needs_bracket: "c \<noteq> CHR ''['' \<Longrightarrow> MARKDOWN_HTTP_LINK_PATTERN (c # cs) = None"
  by (simp add: MARKDOWN_HTTP_LINK_PATTERN_def bracket_text_needs_bracket)

lemma link_pattern_needs_bracket: "c \<noteq> CHR ''['' \<Longrightarrow> MARKDOWN_LINK_PATTERN (c # cs) = None"
  by (simp add: MARKDOWN_LINK_PATTERN_def bracket_text_needs_bracket)

lemma sub_prefix:
  "CHR ''['' \<notin> set pre \<Longrightarrow>
   sub repl bang (pre @ s) =
     (case sub repl (if pre = [] then bang else last pre = CHR ''!'') s of
        Inl e \<Rightarrow> Inl e
      | Inr out \<Rightarrow> Inr (pre @ out))"
proof (induction pre arbitrary: bang)
  case Nil
  show ?case by (simp split: sum.split)
next
  case (Cons c cs)
  then have c: "c \<noteq> CHR ''[''" and cs: "CHR ''['' \<notin> set cs" by auto
  have "sub repl bang ((c # cs) @ s) =
          (case sub repl (c = CHR ''!'') (cs @ s) of Inl e \<Rightarrow> Inl e | Inr out \<Rightarrow> Inr (c # out))"
    using http_pattern_needs_bracket [OF c, of "cs @ s"] by simp
  then show ?case
    unfolding Cons.IH [OF cs, of "c = CHR ''!''"] by (simp split: sum.split)
qed

lemma finditer_prefix:
  "CHR ''['' \<notin> set pre \<Longrightarrow>
   finditer bang (pre @ s) = finditer (if pre = [] then bang else last pre = CHR ''!'') s"
proof (induction pre arbitrary: bang)
  case Nil
  show ?case by simp
next
  case (Cons c cs)
  then have c: "c \<noteq> CHR ''[''" and cs: "CHR ''['' \<notin> set cs" by auto
  have "finditer bang ((c # cs) @ s) = finditer (c = CHR ''!'') (cs @ s)"
    using link_pattern_needs_bracket [OF c, of "cs @ s"] by simp
  then show ?case
    unfolding Cons.IH [OF cs, of "c = CHR ''!''"] by simp
qed

lemma takeWhile_upto: "c \<notin> set a \<Longrightarrow> takeWhile (\<lambda>x. x \<noteq> c) (a @ c # b) = a"
  by (induction a) auto

lemma dropWhile_upto: "c \<notin> set a \<Longrightarrow> dropWhile (\<lambda>x. x \<noteq> c) (a @ c # b) = c # b"
  by (induction a) auto

lemma bracket_text_at:
  assumes "text \<noteq> []" and "CHR '']'' \<notin> set text"
  shows "bracket_text (''['' @ text @ '']('' @ r) = Some (text, r)"
proof -
  have t: "takeWhile (\<lambda>x. x \<noteq> CHR '']'') (text @ CHR '']'' # CHR ''('' # r) = text"
    by (rule takeWhile_upto [OF assms(2)])
  have d: "dropWhile (\<lambda>x. x \<noteq> CHR '']'') (text @ CHR '']'' # CHR ''('' # r) = CHR '']'' # CHR ''('' # r"
    by (rule dropWhile_upto [OF assms(2)])
  from assms(1) show ?thesis
    by (simp add: bracket_text_def t d Let_def)
qed

lemma paren_rest_at:
  assumes "d \<noteq> []" and "CHR '')'' \<notin> set d"
  shows "paren_rest (d @ '')'' @ r) = Some (d, r)"
proof -
  have t: "takeWhile (\<lambda>x. x \<noteq> CHR '')'') (d @ CHR '')'' # r) = d"
    by (rule takeWhile_upto [OF assms(2)])
  have w: "dropWhile (\<lambda>x. x \<noteq> CHR '')'') (d @ CHR '')'' # r) = CHR '')'' # r"
    by (rule dropWhile_upto [OF assms(2)])
  from assms(1) show ?thesis
    by (simp add: paren_rest_def t w Let_def)
qed

lemma brace_attrs_none:
  assumes "\<not> startswith post ''{'' \<or> CHR ''}'' \<notin> set post"
  shows "brace_attrs post = (None, post)"
proof (cases post)
  case Nil
  then show ?thesis by (simp add: brace_attrs_def)
next
  case (Cons c r)
  show ?thesis
  proof (cases "c = CHR ''{''")
    case False
    with Cons show ?thesis by (simp add: brace_attrs_def)
  next
    case True
    with Cons assms have "CHR ''}'' \<notin> set r" by (simp add: startswith_def)
    then have e: "dropWhile (\<lambda>x. x \<noteq> CHR ''}'') r = []" by auto
    show ?thesis unfolding Cons True brace_attrs_def
      by (simp only: e list.case if_True refl simp_thms)
  qed
qed

lemma link_pattern_at:
  assumes "text \<noteq> []" and "CHR '']'' \<notin> set text" and "d \<noteq> []" and "CHR '')'' \<notin> set d"
  shows "MARKDOWN_LINK_PATTERN (''['' @ text @ '']('' @ d @ '')'' @ post) = Some (text, d, post)"
  unfolding MARKDOWN_LINK_PATTERN_def
  by (simp only: bracket_text_at [OF assms(1,2)] paren_rest_at [OF assms(3,4)] option.case prod.case)

lemma http_pattern_at:
  assumes "text \<noteq> []" and "CHR '']'' \<notin> set text" and "u \<noteq> []" and "CHR '')'' \<notin> set u"
    and "\<not> startswith post ''{'' \<or> CHR ''}'' \<notin> set post"
  shows "MARKDOWN_HTTP_LINK_PATTERN (''['' @ text @ '']('' @ ''http'' @ u @ '')'' @ post)
         = Some (text, ''http'' @ u, None, post)"
proof -
  have s: "startswith (''http'' @ u @ '')'' @ post) ''http''" by (simp add: startswith_def)
  have d: "drop 4 (''http'' @ u @ '')'' @ post) = u @ '')'' @ post" by simp
  show ?thesis
    unfolding MARKDOWN_HTTP_LINK_PATTERN_def
    by (simp only: bracket_text_at [OF assms(1,2)] s d paren_rest_at [OF assms(3,4)]
          brace_attrs_none [OF assms(5)] option.case prod.case if_True)
qed

lemma finditer_at_match:
  assumes "MARKDOWN_LINK_PATTERN s = Some (t, d, r)"
  shows "finditer False s = (t, d) # finditer False r"
proof -
  from assms obtain c cs where s: "s = c # cs"
    by (cases s) (auto simp: MARKDOWN_LINK_PATTERN_def bracket_text_def)
  with assms show ?thesis by simp
qed

lemma sub_at_bare_match:
  assumes m: "MARKDOWN_HTTP_LINK_PATTERN s = Some (text, url, None, rest)"
    and c: "strip_chatgpt_utm L url = Inr url'"
    and r: "sub (add_target_blank L) False rest = Inr out"
  shows "sub (add_target_blank L) False s =
           Inr (''['' @ text @ '']('' @ url' @ '')''
                @ (if should_skip_external url' then [] else ''{target=_blank}'') @ out)"
proof -
  from c
  have "add_target_blank L text url None =
          Inr (''['' @ text @ '']('' @ url' @ '')''
               @ (if should_skip_external url' then [] else ''{target=_blank}''))"
    by (simp add: add_target_blank_def Let_def)
  with r show ?thesis by (simp add: sub_at_match [OF m])
qed

text \<open>
  C4, as stated, fails on an asset: the link \<^verbatim>\<open>[x](http://a/b.png)\<close> has no attribute block,
  and the pass leaves it without one. It fails as well on a link that the pattern does not
  match: \<^verbatim>\<open>[see [1]](http://x)\<close>, with a bracket in its text, is left as it is. And in
  \<^verbatim>\<open>[a](http://x/(y))\<close> the pattern ends the URL at the first closing parenthesis, so the
  block is written inside the link's destination.
\<close>

theorem asset_link_gets_no_block:
  "MARKDOWN_HTTP_LINK_PATTERN ''[x](http://a/b.png)'' = Some (''x'', ''http://a/b.png'', None, [])
   \<and> sub (add_target_blank lenient) False ''[x](http://a/b.png)'' = Inr ''[x](http://a/b.png)''
   \<and> CHR ''{'' \<notin> set ''[x](http://a/b.png)''
   \<and> sub (add_target_blank lenient) False ''[see [1]](http://x)'' = Inr ''[see [1]](http://x)''
   \<and> sub (add_target_blank lenient) False ''[a](http://x/(y))'' = Inr ''[a](http://x/(y){target=_blank})''"
  by code_simp

text \<open>
  C4, amended. Where the scan of the annotator tries its pattern and the pattern matches a
  link with no attribute block, and cleaning the URL raises nothing, the pass writes the
  rebuilt link and right after it the one block \<^verbatim>\<open>{target=_blank}\<close>, which has the marker,
  unless the cleaned URL is an asset or has a skip-listed substring: then it writes the
  rebuilt link alone. After either it goes on with the text that follows the match. The
  pattern is tried, and matches, at every link \<^verbatim>\<open>[text](url)\<close> that stands after text
  without an opening bracket and not after an exclamation mark, whose text is not empty
  and has no closing bracket, whose URL is \<^verbatim>\<open>http\<close> and then at least one character, none a
  closing parenthesis, and that is not followed by an attribute block (an opening brace
  with a closing brace somewhere after it): the text before such a link is kept as it is.
\<close>

theorem bare_link_gets_one_block:
  "(MARKDOWN_HTTP_LINK_PATTERN s = Some (text, url, None, rest)
      \<and> strip_chatgpt_utm L url = Inr url'
      \<and> sub (add_target_blank L) False rest = Inr out
    \<longrightarrow> sub (add_target_blank L) False s =
           Inr (''['' @ text @ '']('' @ url' @ '')''
                @ (if should_skip_external url' then [] else ''{target=_blank}'') @ out))
   \<and> (CHR ''['' \<notin> set pre \<and> (pre = [] \<or> last pre \<noteq> CHR ''!'')
      \<and> t \<noteq> [] \<and> CHR '']'' \<notin> set t \<and> u \<noteq> [] \<and> CHR '')'' \<notin> set u
      \<and> (\<not> startswith post ''{'' \<or> CHR ''}'' \<notin> set post)
      \<and> strip_chatgpt_utm L (''http'' @ u) = Inr u'
      \<and> sub (add_target_blank L) False post = Inr out'
    \<longrightarrow> sub (add_target_blank L) False (pre @ ''['' @ t @ '']('' @ ''http'' @ u @ '')'' @ post) =
           Inr (pre @ ''['' @ t @ '']('' @ u' @ '')''
                @ (if should_skip_external u' then [] else ''{target=_blank}'') @ out'))
   \<and> attrs_already_have_target_blank ''{target=_blank}''"
proof (intro conjI impI)
  assume "MARKDOWN_HTTP_LINK_PATTERN s = Some (text, url, None, rest)
      \<and> strip_chatgpt_utm L url = Inr url'
      \<and> sub (add_target_blank L) False rest = Inr out"
  then show "sub (add_target_blank L) False s =
           Inr (''['' @ text @ '']('' @ url' @ '')''
                @ (if should_skip_external url' then [] else ''{target=_blank}'') @ out)"
    using sub_at_bare_match by blast
next
  assume a: "CHR ''['' \<notin> set pre \<and> (pre = [] \<or> last pre \<noteq> CHR ''!'')
      \<and> t \<noteq> [] \<and> CHR '']'' \<notin> set t \<and> u \<noteq> [] \<and> CHR '')'' \<notin> set u
      \<and> (\<not> startswith post ''{'' \<or> CHR ''}'' \<notin> set post)
      \<and> strip_chatgpt_utm L (''http'' @ u) = Inr u'
      \<and> sub (add_target_blank L) False post = Inr out'"
  then have m: "MARKDOWN_HTTP_LINK_PATTERN (''['' @ t @ '']('' @ ''http'' @ u @ '')'' @ post)
                = Some (t, ''http'' @ u, None, post)"
    by (intro http_pattern_at) simp_all
  from a have b: "(if pre = [] then False else last pre = CHR ''!'') = False" by auto
  from a have c: "strip_chatgpt_utm L (''http'' @ u) = Inr u'"
    and r: "sub (add_target_blank L) False post = Inr out'" and p: "CHR ''['' \<notin> set pre"
    by simp_all
  have "sub (add_target_blank L) False (''['' @ t @ '']('' @ ''http'' @ u @ '')'' @ post) =
         Inr (''['' @ t @ '']('' @ u' @ '')''
              @ (if should_skip_external u' then [] else ''{target=_blank}'') @ out')"
    by (rule sub_at_bare_match [OF m c r])
  then
  show "sub (add_target_blank L) False (pre @ ''['' @ t @ '']('' @ ''http'' @ u @ '')'' @ post) =
         Inr (pre @ ''['' @ t @ '']('' @ u' @ '')''
              @ (if should_skip_external u' then [] else ''{target=_blank}'') @ out')"
    by (simp only: sub_prefix [OF p] b sum.case)
next
  show "attrs_already_have_target_blank ''{target=_blank}''"
    by (rule search_plain) code_simp
qed

theorem bare_link_gets_one_block_witness:
  "MARKDOWN_HTTP_LINK_PATTERN ''[a](http://x/?utm_source=chatgpt.com) b'' =
     Some (''a'', ''http://x/?utm_source=chatgpt.com'', None, '' b'')
   \<and> strip_chatgpt_utm lenient ''http://x/?utm_source=chatgpt.com'' = Inr ''http://x/''
   \<and> sub (add_target_blank lenient) False '' b'' = Inr '' b''
   \<and> \<not> should_skip_external ''http://x/''
   \<and> sub (add_target_blank lenient) False ''[a](http://x/?utm_source=chatgpt.com) b'' =
       Inr ''[a](http://x/){target=_blank} b''
   \<and> sub (add_target_blank lenient) False (''See '' @ ''['' @ ''a'' @ '']('' @ ''http'' @ ''://x/?utm_source=chatgpt.com'' @ '')'' @ '' b'') =
       Inr (''See '' @ ''['' @ ''a'' @ '']('' @ ''http://x/'' @ '')'' @ ''{target=_blank}'' @ '' b'')"
proof -
  have h1: "MARKDOWN_HTTP_LINK_PATTERN ''[a](http://x/?utm_source=chatgpt.com) b'' =
     Some (''a'', ''http://x/?utm_source=chatgpt.com'', None, '' b'')"
    by code_simp
  have h2: "strip_chatgpt_utm lenient ''http://x/?utm_source=chatgpt.com'' = Inr ''http://x/''"
    by code_simp
  have h3: "sub (add_target_blank lenient) False '' b'' = Inr '' b''"
    by code_simp
  have h4: "\<not> should_skip_external ''http://x/''"
    by code_simp
  have h5: "CHR ''['' \<notin> set ''See '' \<and> (''See '' = [] \<or> last ''See '' \<noteq> CHR ''!'')
      \<and> ''a'' \<noteq> [] \<and> CHR '']'' \<notin> set ''a'' \<and> ''://x/?utm_source=chatgpt.com'' \<noteq> []
      \<and> CHR '')'' \<notin> set ''://x/?utm_source=chatgpt.com''
      \<and> (\<not> startswith '' b'' ''{'' \<or> CHR ''}'' \<notin> set '' b'')"
    by code_simp
  have h6: "strip_chatgpt_utm lenient (''http'' @ ''://x/?utm_source=chatgpt.com'') = Inr ''http://x/''"
    using h2 by simp
  note t = bare_link_gets_one_block [of "''[a](http://x/?utm_source=chatgpt.com) b''" "''a''"
      "''http://x/?utm_source=chatgpt.com''" "'' b''" lenient "''http://x/''" "'' b''"
      "''See ''" "''a''" "''://x/?utm_source=chatgpt.com''" "'' b''" "''http://x/''" "'' b''"]
  from t h1 h2 h3
  have r1: "sub (add_target_blank lenient) False ''[a](http://x/?utm_source=chatgpt.com) b'' =
          Inr (''['' @ ''a'' @ '']('' @ ''http://x/'' @ '')''
               @ (if should_skip_external ''http://x/'' then [] else ''{target=_blank}'') @ '' b'')"
    by blast
  from t h5 h6 h3
  have r2: "sub (add_target_blank lenient) False (''See '' @ ''['' @ ''a'' @ '']('' @ ''http'' @ ''://x/?utm_source=chatgpt.com'' @ '')'' @ '' b'') =
          Inr (''See '' @ ''['' @ ''a'' @ '']('' @ ''http://x/'' @ '')''
               @ (if should_skip_external ''http://x/'' then [] else ''{target=_blank}'') @ '' b'')"
    by blast
  from r1 h4 have r1': "sub (add_target_blank lenient) False ''[a](http://x/?utm_source=chatgpt.com) b'' =
       Inr ''[a](http://x/){target=_blank} b''"
    by simp
  from r2 h4 have r2': "sub (add_target_blank lenient) False (''See '' @ ''['' @ ''a'' @ '']('' @ ''http'' @ ''://x/?utm_source=chatgpt.com'' @ '')'' @ '' b'') =
       Inr (''See '' @ ''['' @ ''a'' @ '']('' @ ''http://x/'' @ '')'' @ ''{target=_blank}'' @ '' b'')"
    by (simp only: if_False)
  from h1 h2 h3 h4 r1' r2' show ?thesis by blast
qed

text \<open>
  C9 fails on an image that is the text of a link. The pattern matches from the bracket
  of the link, with the image's \<^verbatim>\<open>![alt\<close> as its text and the image's URL as its
  destination: the annotator puts a block after the image, and the checker looks for the
  sources of the image's destination and reports it broken.
\<close>

definition site :: fsys where
  "site = \<lparr>cwd = [],
            nodes = [[''docs''] \<mapsto> Dir,
                     [''docs'', ''page.md''] \<mapsto> File ''[![logo](assets/logo)](about)'',
                     [''docs'', ''about.md''] \<mapsto> File ''About''] \<rparr>"

theorem linked_image_is_matched:
  "sub (add_target_blank lenient) False ''[![DOI](https://zenodo.org/badge/1)](https://doi.org/1)''
     = Inr ''[![DOI](https://zenodo.org/badge/1){target=_blank}](https://doi.org/1)''
   \<and> finditer False ''[![logo](assets/logo)](about)'' = [(''![logo'', ''assets/logo'')]
   \<and> check_internal_links lenient site (Path ''docs/page.md'') (Path ''/'')
     = Inr [(''assets/logo'',
             [Path ''docs/assets/logo.qmd'', Path ''docs/assets/logo.md'',
              Path ''docs/assets/logo/index.qmd'', Path ''docs/assets/logo/index.md''])]"
  by code_simp

section \<open>Properties of the internal link checker\<close>

lemma check_link_Broken:
  assumes "check_link L fs file_path repo_root dest = Inr (Broken (l, c))"
  shows "strip_chatgpt_utm L (strip dest) = Inr l
         \<and> \<not> is_templated_link l
         \<and> \<not> list_ex (startswith l) [''http://'', ''https://'', ''mailto:'', ''#'', ''tel:'']
         \<and> l \<noteq> ''{nc[k]}''
         \<and> \<not> list_ex (contains l) SKIP_URL_SUBSTRINGS
         \<and> \<not> is_asset_link l
         \<and> \<not> contains l ''_news''
         \<and> c = candidates_for_quarto_source file_path l repo_root
         \<and> any_exists fs c = Inr False"
proof (cases "strip_chatgpt_utm L (strip dest)")
  case (Inl e)
  with assms show ?thesis by (simp add: check_link_def)
next
  case (Inr link)
  with assms show ?thesis
    unfolding check_link_def Let_def
    by (auto split: if_splits sum.splits)
qed

lemma check_links_members:
  "check_links L fs file_path repo_root dests = Inr broken \<Longrightarrow>
   set broken = {b. \<exists>d \<in> set dests. check_link L fs file_path repo_root d = Inr (Broken b)}"
proof (induction dests arbitrary: broken)
  case Nil
  then show ?case by simp
next
  case (Cons d ds)
  from Cons.prems obtain v rest where v: "check_link L fs file_path repo_root d = Inr v"
    and rest: "check_links L fs file_path repo_root ds = Inr rest"
    and broken: "broken = (case v of Broken b \<Rightarrow> b # rest | _ \<Rightarrow> rest)"
    by (auto split: sum.splits)
  from Cons.IH [OF rest]
  have ih: "set rest = {b. \<exists>d \<in> set ds. check_link L fs file_path repo_root d = Inr (Broken b)}" .
  show ?case
  proof (cases v)
    case (Broken b)
    with v broken ih show ?thesis by auto
  next
    case Skipped
    with v broken ih show ?thesis by auto
  next
    case Resolved
    with v broken ih show ?thesis by auto
  qed
qed

text \<open>
  C10. A destination that, cleaned as the checker cleans it, has \<^verbatim>\<open>_news\<close> anywhere in
  it is skipped, whatever the file system holds; and no link that the checker reports for
  a file has \<^verbatim>\<open>_news\<close> in it.
\<close>

theorem news_links_are_skipped:
  "(strip_chatgpt_utm L (strip dest) = Inr link \<and> contains link ''_news''
      \<longrightarrow> check_link L fs file_path repo_root dest = Inr Skipped)
   \<and> (check_internal_links L fs file_path repo_root = Inr broken
      \<longrightarrow> (\<forall>(l, c) \<in> set broken. \<not> contains l ''_news''))"
proof (intro conjI impI)
  assume "strip_chatgpt_utm L (strip dest) = Inr link \<and> contains link ''_news''"
  then show "check_link L fs file_path repo_root dest = Inr Skipped"
    by (simp add: check_link_def Let_def)
next
  assume a: "check_internal_links L fs file_path repo_root = Inr broken"
  then obtain content where
    "check_links L fs file_path repo_root (map snd (finditer False content)) = Inr broken"
    by (auto simp: check_internal_links_def split: sum.splits)
  from check_links_members [OF this]
  have "\<forall>b \<in> set broken. \<exists>d. check_link L fs file_path repo_root d = Inr (Broken b)"
    by blast
  then show "\<forall>(l, c) \<in> set broken. \<not> contains l ''_news''"
    using check_link_Broken by fastforce
qed

definition news_site :: fsys where
  "news_site = \<lparr>cwd = [],
                 nodes = [[''docs''] \<mapsto> Dir,
                          [''docs'', ''page.md''] \<mapsto> File ''[a](b_news) [c](d)''] \<rparr>"

theorem news_links_are_skipped_witness:
  "strip_chatgpt_utm lenient (strip ''b_news'') = Inr ''b_news'' \<and> contains ''b_news'' ''_news''
   \<and> check_link lenient news_site (Path ''docs/page.md'') (Path ''/'') ''b_news'' = Inr Skipped
   \<and> check_internal_links lenient news_site (Path ''docs/page.md'') (Path ''/'')
      = Inr [(''d'', [Path ''docs/d.qmd'', Path ''docs/d.md'',
                     Path ''docs/d/index.qmd'', Path ''docs/d/index.md''])]
   \<and> \<not> contains ''d'' ''_news''"
proof -
  have h1: "strip_chatgpt_utm lenient (strip ''b_news'') = Inr ''b_news'' \<and> contains ''b_news'' ''_news''"
    by code_simp
  have h2: "check_internal_links lenient news_site (Path ''docs/page.md'') (Path ''/'')
      = Inr [(''d'', [Path ''docs/d.qmd'', Path ''docs/d.md'',
                     Path ''docs/d/index.qmd'', Path ''docs/d/index.md''])]"
    by code_simp
  have h3: "\<not> contains ''d'' ''_news''"
    by code_simp
  from news_links_are_skipped [of lenient "''b_news''" "''b_news''" news_site
      "Path ''docs/page.md''" "Path ''/''"] h1
  have "check_link lenient news_site (Path ''docs/page.md'') (Path ''/'') ''b_news'' = Inr Skipped"
    by blast
  with h1 h2 h3 show ?thesis by simp
qed

subsection \<open>Directory links\<close>

lemma split_no_sep: "x \<in> set (split c s) \<Longrightarrow> c \<notin> set x"
proof (induction s arbitrary: x)
  case Nil
  then show ?case by simp
next
  case (Cons a s)
  then show ?case
    by (cases "split c s") (auto split: if_splits)
qed

lemma split_not_Nil: "split c s \<noteq> []"
  by (induction s) (auto split: list.splits)

lemma split_plain: "c \<notin> set a \<Longrightarrow> split c a = [a]"
  by (induction a) auto

lemma split_at_sep: "c \<notin> set a \<Longrightarrow> split c (a @ c # b) = a # split c b"
  by (induction a) auto

definition names_ok :: "string list \<Rightarrow> bool" where
  "names_ok ns = (\<forall>n \<in> set ns. n \<noteq> [] \<and> n \<noteq> ''.'' \<and> CHR ''/'' \<notin> set n)"

lemma names_ok_Path: "names_ok (names (Path s))"
  by (auto simp: names_ok_def Path_def dest: split_no_sep)

lemma root_Path: "root (Path s) = [] \<or> root (Path s) = ''/'' \<or> root (Path s) = ''//''"
  by (simp add: Path_def)

lemma names_ok_joinpath: "names_ok (names p) \<Longrightarrow> names_ok (names (joinpath p s))"
  using names_ok_Path [of s] by (auto simp: joinpath_def Let_def names_ok_def)

lemma root_joinpath:
  "root p = [] \<or> root p = ''/'' \<or> root p = ''//'' \<Longrightarrow>
   root (joinpath p s) = [] \<or> root (joinpath p s) = ''/'' \<or> root (joinpath p s) = ''//''"
  using root_Path [of s] by (auto simp: joinpath_def Let_def)

lemma names_ok_parent: "names_ok (names p) \<Longrightarrow> names_ok (names (parent p))"
  by (auto simp: parent_def names_ok_def dest: in_set_butlastD)

lemma split_join_suffix_Cons:
  "names_ok (n # ns) \<Longrightarrow> CHR ''/'' \<notin> set sfx \<Longrightarrow>
   split CHR ''/'' (join ''/'' (n # ns) @ sfx) = butlast (n # ns) @ [last (n # ns) @ sfx]"
proof (induction ns arbitrary: n)
  case Nil
  then show ?case by (simp add: split_plain names_ok_def)
next
  case (Cons m ms)
  from Cons.prems have n: "CHR ''/'' \<notin> set n" and ok: "names_ok (m # ms)"
    by (simp_all add: names_ok_def)
  have "join ''/'' (n # m # ms) @ sfx = n @ CHR ''/'' # (join ''/'' (m # ms) @ sfx)"
    by simp
  then have "split CHR ''/'' (join ''/'' (n # m # ms) @ sfx)
             = n # split CHR ''/'' (join ''/'' (m # ms) @ sfx)"
    using split_at_sep [OF n] by simp
  with Cons.IH [OF ok Cons.prems(2)] show ?case by simp
qed

lemma names_with_suffix:
  assumes ok: "names_ok ns" and ne: "ns \<noteq> []"
    and r: "r = [] \<or> r = ''/'' \<or> r = ''//''"
    and sfx: "CHR ''/'' \<notin> set sfx" "sfx \<noteq> []"
  shows "names (Path (r @ join ''/'' ns @ sfx)) = butlast ns @ [last ns @ sfx]"
proof -
  from ne obtain n ms where ns: "ns = n # ms" by (cases ns) auto
  from ok ns sfx have s: "split CHR ''/'' (join ''/'' ns @ sfx) = butlast ns @ [last ns @ sfx]"
    using split_join_suffix_Cons by simp
  from ok have b: "\<forall>x \<in> set (butlast ns). x \<noteq> [] \<and> x \<noteq> ''.''"
    by (auto simp: names_ok_def dest: in_set_butlastD)
  from ok ne have "last ns \<noteq> []" by (auto simp: names_ok_def)
  with sfx have l: "last ns @ sfx \<noteq> [] \<and> last ns @ sfx \<noteq> ''.''"
    by (cases "last ns"; cases sfx) auto
  have f: "filter (\<lambda>x. x \<noteq> [] \<and> x \<noteq> ''.'') (butlast ns @ [last ns @ sfx]) = butlast ns @ [last ns @ sfx]"
    using b l by (simp add: filter_id_conv)
  from r show ?thesis
  proof (elim disjE)
    assume "r = []"
    then show ?thesis by (simp add: Path_def s f del: filter_append)
  next
    assume "r = ''/''"
    then show ?thesis by (simp add: Path_def s f del: filter_append)
  next
    assume "r = ''//''"
    then show ?thesis by (simp add: Path_def s f del: filter_append)
  qed
qed

lemma names_bare_suffix:
  assumes "sfx = ''.qmd'' \<or> sfx = ''.md''" and "r = ''.'' \<or> r = ''/'' \<or> r = ''//''"
  shows "names (Path (r @ sfx)) = [r @ sfx] \<or> names (Path (r @ sfx)) = [sfx]"
  using assms by (auto simp: Path_def)

lemma names_joinpath_index:
  "idx = ''index.qmd'' \<or> idx = ''index.md'' \<Longrightarrow> names (joinpath p idx) = names p @ [idx]"
  by (auto simp: joinpath_def Path_def startswith_def)

lemma suffixed_is_no_index:
  assumes ok: "names_ok (names base)"
    and r: "root base = [] \<or> root base = ''/'' \<or> root base = ''//''"
    and sfx: "sfx = ''.qmd'' \<or> sfx = ''.md''"
    and idx: "idx = ''index.qmd'' \<or> idx = ''index.md''"
  shows "Path (str base @ sfx) \<noteq> joinpath base idx"
proof (cases "names base = []")
  case True
  with r have "str base = ''.'' \<or> str base = ''/'' \<or> str base = ''//''"
    by (auto simp: str_def)
  from names_bare_suffix [OF sfx this]
  have "names (Path (str base @ sfx)) = [str base @ sfx] \<or> names (Path (str base @ sfx)) = [sfx]" .
  moreover from True idx have "names (joinpath base idx) = [idx]"
    by (simp add: names_joinpath_index)
  moreover from \<open>str base = ''.'' \<or> str base = ''/'' \<or> str base = ''//''\<close> sfx idx
  have "str base @ sfx \<noteq> idx \<and> sfx \<noteq> idx" by auto
  ultimately have "names (Path (str base @ sfx)) \<noteq> names (joinpath base idx)" by auto
  then show ?thesis by auto
next
  case False
  from sfx have s: "CHR ''/'' \<notin> set sfx" "sfx \<noteq> []" by auto
  from False obtain n ms where nm: "names base = n # ms" by (cases "names base") auto
  with ok have "n \<noteq> []" by (simp add: names_ok_def)
  then have "join ''/'' (n # ms) \<noteq> []" by (cases ms) auto
  with nm have ne: "root base @ join ''/'' (names base) \<noteq> []" by simp
  then have "str base @ sfx = root base @ join ''/'' (names base) @ sfx"
    by (simp add: str_def Let_def)
  with names_with_suffix [OF ok False r s]
  have "length (names (Path (str base @ sfx))) = length (names base)"
    using False by simp
  moreover from idx have "length (names (joinpath base idx)) = Suc (length (names base))"
    by (simp add: names_joinpath_index)
  ultimately have "names (Path (str base @ sfx)) \<noteq> names (joinpath base idx)" by auto
  then show ?thesis by auto
qed

lemma endswith_last: "endswith s p \<Longrightarrow> p \<noteq> [] \<Longrightarrow> last s = last p"
proof -
  assume a: "endswith s p" and p: "p \<noteq> []"
  then have "drop (length s - length p) s = p"
    by (simp add: endswith_def)
  with append_take_drop_id [of "length s - length p" s]
  have "s = take (length s - length p) s @ p" by simp
  then have "last s = last (take (length s - length p) s @ p)" by simp
  with p show ?thesis by simp
qed

lemma slash_is_no_html: "endswith s ''/'' \<Longrightarrow> \<not> endswith s ''.html''"
proof
  assume "endswith s ''/''" and "endswith s ''.html''"
  then have "last s = CHR ''/''" and "last s = CHR ''l''"
    by (auto dest!: endswith_last)
  then show False by simp
qed

text \<open>
  C5. A destination whose path \<^emph>\<open>without fragment and query\<close> ends in a slash has exactly two
  candidates, \<^verbatim>\<open>index.qmd\<close> and \<^verbatim>\<open>index.md\<close> in its base, in this order; neither is the
  base with \<^verbatim>\<open>.qmd\<close> or \<^verbatim>\<open>.md\<close> put after it. The base is the path without its trailing
  slashes, below the repository root when it starts with a slash and below the directory
  of the file otherwise.
\<close>

theorem directory_link_has_two_candidates:
  assumes "endswith (strip_fragment_and_query link) ''/''"
  shows "let clean = rev (dropWhile (\<lambda>c. c = CHR ''/'') (rev (strip_fragment_and_query link)));
             base = (if startswith clean ''/''
                     then joinpath (Path r) (dropWhile (\<lambda>c. c = CHR ''/'') clean)
                     else joinpath (parent (Path f)) clean);
             cands = candidates_for_quarto_source (Path f) link (Path r)
         in cands = [joinpath base ''index.qmd'', joinpath base ''index.md'']
            \<and> Path (str base @ ''.qmd'') \<notin> set cands
            \<and> Path (str base @ ''.md'') \<notin> set cands"
proof -
  define clean where "clean = rev (dropWhile (\<lambda>c. c = CHR ''/'') (rev (strip_fragment_and_query link)))"
  define base where "base = (if startswith clean ''/''
                     then joinpath (Path r) (dropWhile (\<lambda>c. c = CHR ''/'') clean)
                     else joinpath (parent (Path f)) clean)"
  from assms have nh: "\<not> endswith (strip_fragment_and_query link) ''.html''"
    by (rule slash_is_no_html)
  have c: "candidates_for_quarto_source (Path f) link (Path r)
           = [joinpath base ''index.qmd'', joinpath base ''index.md'']"
    using assms nh
    unfolding candidates_for_quarto_source_def Let_def base_def clean_def
      strip_fragment_and_query_def [symmetric]
    by simp
  have ok: "names_ok (names base)"
    unfolding base_def
    by (simp add: names_ok_joinpath names_ok_parent names_ok_Path)
  have "root (parent (Path f)) = root (Path f)" by (simp add: parent_def)
  then have rt: "root base = [] \<or> root base = ''/'' \<or> root base = ''//''"
    unfolding base_def
    using root_joinpath [of "Path r"] root_joinpath [of "parent (Path f)"] root_Path [of r] root_Path [of f]
    by (simp split: if_splits)
  have "Path (str base @ ''.qmd'') \<noteq> joinpath base ''index.qmd''"
    "Path (str base @ ''.qmd'') \<noteq> joinpath base ''index.md''"
    "Path (str base @ ''.md'') \<noteq> joinpath base ''index.qmd''"
    "Path (str base @ ''.md'') \<noteq> joinpath base ''index.md''"
    by (rule suffixed_is_no_index [OF ok rt]; simp)+
  with c show ?thesis
    unfolding Let_def base_def [symmetric] clean_def [symmetric] by simp
qed

theorem directory_link_has_two_candidates_witness:
  "endswith (strip_fragment_and_query ''foo/bar/'') ''/''
   \<and> candidates_for_quarto_source (Path ''docs/guide/page.md'') ''foo/bar/'' (Path ''/r'')
     = [Path ''docs/guide/foo/bar/index.qmd'', Path ''docs/guide/foo/bar/index.md'']
   \<and> Path ''docs/guide/foo/bar.qmd'' \<notin> set (candidates_for_quarto_source (Path ''docs/guide/page.md'') ''foo/bar/'' (Path ''/r''))
   \<and> Path ''docs/guide/foo/bar.md'' \<notin> set (candidates_for_quarto_source (Path ''docs/guide/page.md'') ''foo/bar/'' (Path ''/r''))"
proof -
  have h: "endswith (strip_fragment_and_query ''foo/bar/'') ''/''"
    by code_simp
  have b: "(if startswith (rev (dropWhile (\<lambda>c. c = CHR ''/'') (rev (strip_fragment_and_query ''foo/bar/'')))) ''/''
            then joinpath (Path ''/r'') (dropWhile (\<lambda>c. c = CHR ''/'')
                   (rev (dropWhile (\<lambda>c. c = CHR ''/'') (rev (strip_fragment_and_query ''foo/bar/'')))))
            else joinpath (parent (Path ''docs/guide/page.md''))
                   (rev (dropWhile (\<lambda>c. c = CHR ''/'') (rev (strip_fragment_and_query ''foo/bar/'')))))
           = Path ''docs/guide/foo/bar''"
    by code_simp
  have p: "joinpath (Path ''docs/guide/foo/bar'') ''index.qmd'' = Path ''docs/guide/foo/bar/index.qmd''"
    "joinpath (Path ''docs/guide/foo/bar'') ''index.md'' = Path ''docs/guide/foo/bar/index.md''"
    "Path (str (Path ''docs/guide/foo/bar'') @ ''.qmd'') = Path ''docs/guide/foo/bar.qmd''"
    "Path (str (Path ''docs/guide/foo/bar'') @ ''.md'') = Path ''docs/guide/foo/bar.md''"
    by code_simp+
  note t = directory_link_has_two_candidates [OF h, of "''/r''" "''docs/guide/page.md''"]
  from t h show ?thesis
    unfolding Let_def b p by blast
qed

subsection \<open>Links the checker reports\<close>

lemma any_exists_False:
  "any_exists fs ps = Inr False \<longleftrightarrow> (\<forall>p \<in> set ps. exists fs p = Inr False)"
proof (induction ps)
  case Nil
  show ?case by simp
next
  case (Cons p ps)
  show ?case
  proof (cases "exists fs p")
    case (Inl e)
    then show ?thesis by simp
  next
    case (Inr found)
    with Cons show ?thesis by (cases found) simp_all
  qed
qed

lemma any_exists_total:
  "\<forall>p \<in> set ps. \<exists>found. exists fs p = Inr found \<Longrightarrow>
   any_exists fs ps = Inr (\<exists>p \<in> set ps. exists fs p = Inr True)"
proof (induction ps)
  case Nil
  show ?case by simp
next
  case (Cons p ps)
  from Cons.prems obtain found where f: "exists fs p = Inr found" by auto
  from Cons.prems have "\<forall>p \<in> set ps. \<exists>found. exists fs p = Inr found" by simp
  from Cons.IH [OF this] f show ?case by (cases found) simp_all
qed

lemma check_link_internal:
  assumes "strip_chatgpt_utm L (strip dest) = Inr link"
    and "\<not> is_templated_link link"
    and "\<not> list_ex (startswith link) [''http://'', ''https://'', ''mailto:'', ''#'', ''tel:'']"
    and "link \<noteq> ''{nc[k]}''"
    and "\<not> list_ex (contains link) SKIP_URL_SUBSTRINGS"
    and "\<not> is_asset_link link"
    and "\<not> contains link ''_news''"
  shows "check_link L fs file_path repo_root dest =
           (case any_exists fs (candidates_for_quarto_source file_path link repo_root) of
              Inl e \<Rightarrow> Inl e
            | Inr found \<Rightarrow>
                Inr (if found then Resolved
                     else Broken (link, candidates_for_quarto_source file_path link repo_root)))"
  using assms unfolding check_link_def Let_def
  by (simp split: sum.split)

lemma check_link_broken_iff:
  assumes "check_link L fs file_path repo_root dest =
           (case any_exists fs cands of
              Inl e \<Rightarrow> Inl e
            | Inr found \<Rightarrow> Inr (if found then Resolved else Broken (link, cands)))"
  shows "check_link L fs file_path repo_root dest = Inr (Broken b)
         \<longleftrightarrow> b = (link, cands) \<and> (\<forall>p \<in> set cands. exists fs p = Inr False)"
proof (cases "any_exists fs cands")
  case (Inl e)
  then have "any_exists fs cands \<noteq> Inr False" by simp
  then have "\<not> (\<forall>p \<in> set cands. exists fs p = Inr False)"
    unfolding any_exists_False .
  with Inl show ?thesis unfolding assms by simp
next
  case (Inr found)
  show ?thesis
  proof (cases found)
    case True
    with Inr have "any_exists fs cands \<noteq> Inr False" by simp
    then have "\<not> (\<forall>p \<in> set cands. exists fs p = Inr False)"
      unfolding any_exists_False .
    with Inr True show ?thesis unfolding assms by simp
  next
    case False
    with Inr have "any_exists fs cands = Inr False" by simp
    then have "\<forall>p \<in> set cands. exists fs p = Inr False"
      unfolding any_exists_False .
    with Inr False show ?thesis unfolding assms by auto
  qed
qed

lemma check_link_no_raise:
  assumes "check_link L fs file_path repo_root dest =
           (case any_exists fs cands of
              Inl e \<Rightarrow> Inl e
            | Inr found \<Rightarrow> Inr (if found then Resolved else Broken (link, cands)))"
    and "\<forall>p \<in> set cands. \<exists>found. exists fs p = Inr found"
  shows "check_link L fs file_path repo_root dest =
           Inr (if \<exists>p \<in> set cands. exists fs p = Inr True then Resolved
                else Broken (link, cands))"
  unfolding assms(1) any_exists_total [OF assms(2)] by simp

lemma check_links_list:
  "check_links L fs file_path repo_root dests = Inr broken \<Longrightarrow>
   broken = concat (map (\<lambda>x. case check_link L fs file_path repo_root x of
                               Inr (Broken b) \<Rightarrow> [b] | _ \<Rightarrow> []) dests)"
proof (induction dests arbitrary: broken)
  case Nil
  then show ?case by simp
next
  case (Cons x xs)
  from Cons.prems obtain v rest where v: "check_link L fs file_path repo_root x = Inr v"
    and rest: "check_links L fs file_path repo_root xs = Inr rest"
    and broken: "broken = (case v of Broken b \<Rightarrow> b # rest | _ \<Rightarrow> rest)"
    by (auto split: sum.splits)
  from Cons.IH [OF rest] v broken show ?case
    by (cases v) simp_all
qed

lemma check_links_no_raise:
  "\<forall>x \<in> set dests. \<exists>v. check_link L fs file_path repo_root x = Inr v \<Longrightarrow>
   \<exists>broken. check_links L fs file_path repo_root dests = Inr broken"
proof (induction dests)
  case Nil
  show ?case by simp
next
  case (Cons x xs)
  from Cons.prems obtain v where v: "check_link L fs file_path repo_root x = Inr v" by auto
  from Cons.prems have "\<forall>x \<in> set xs. \<exists>v. check_link L fs file_path repo_root x = Inr v" by simp
  from Cons.IH [OF this] obtain rest where "check_links L fs file_path repo_root xs = Inr rest"
    by blast
  with v show ?case by simp
qed

lemma finditer_simple_link:
  assumes "CHR ''['' \<notin> set pre" and "pre = [] \<or> last pre \<noteq> CHR ''!''"
    and "text \<noteq> []" and "CHR '']'' \<notin> set text" and "d \<noteq> []" and "CHR '')'' \<notin> set d"
  shows "finditer False (pre @ ''['' @ text @ '']('' @ d @ '')'' @ post)
         = (text, d) # finditer False post"
proof -
  from assms(2) have b: "(if pre = [] then False else last pre = CHR ''!'') = False" by auto
  have "finditer False (''['' @ text @ '']('' @ d @ '')'' @ post) = (text, d) # finditer False post"
    by (rule finditer_at_match [OF link_pattern_at [OF assms(3-6)]])
  then show ?thesis by (simp only: finditer_prefix [OF assms(1)] b)
qed

subsection \<open>The candidates of a link that is no directory link\<close>

lemma names_update: "p\<lparr>names := ns\<rparr> = \<lparr>root = root p, names = ns\<rparr>"
  by (cases p) simp

lemma str_plain:
  assumes "names_ok (names p)" and "names p \<noteq> []"
  shows "str p = root p @ join ''/'' (names p)"
proof -
  from assms obtain n ms where nm: "names p = n # ms" by (cases "names p") auto
  with assms(1) have "n \<noteq> []" by (simp add: names_ok_def)
  then have "join ''/'' (n # ms) \<noteq> []" by (cases ms) auto
  with nm show ?thesis by (simp add: str_def Let_def)
qed

lemma root_with_suffix:
  assumes ok: "names_ok ns" and ne: "ns \<noteq> []"
    and r: "r = [] \<or> r = ''/'' \<or> r = ''//''"
  shows "root (Path (r @ join ''/'' ns @ sfx)) = r"
proof -
  from ne obtain n ms where ns: "ns = n # ms" by (cases ns) auto
  with ok have "n \<noteq> []" and "CHR ''/'' \<notin> set n" by (simp_all add: names_ok_def)
  then obtain a n' where n: "n = a # n'" and a: "a \<noteq> CHR ''/''" by (cases n) auto
  obtain t where j: "join ''/'' ns @ sfx = a # t"
    unfolding ns n by (cases ms) simp_all
  from r show ?thesis
  proof (elim disjE)
    assume "r = []"
    with a show ?thesis by (simp add: Path_def j startswith_def)
  next
    assume "r = ''/''"
    with a show ?thesis by (simp add: Path_def j startswith_def)
  next
    assume "r = ''//''"
    with a show ?thesis by (simp add: Path_def j startswith_def)
  qed
qed

lemma Path_with_suffix:
  assumes ok: "names_ok ns" and ne: "ns \<noteq> []"
    and r: "r = [] \<or> r = ''/'' \<or> r = ''//''"
    and sfx: "CHR ''/'' \<notin> set sfx" "sfx \<noteq> []"
  shows "Path (str \<lparr>root = r, names = ns\<rparr> @ sfx) = \<lparr>root = r, names = butlast ns @ [last ns @ sfx]\<rparr>"
proof -
  have s: "str \<lparr>root = r, names = ns\<rparr> = r @ join ''/'' ns"
    using str_plain [of "\<lparr>root = r, names = ns\<rparr>"] ok ne by simp
  have "Path (r @ join ''/'' ns @ sfx)
        = \<lparr>root = root (Path (r @ join ''/'' ns @ sfx)), names = names (Path (r @ join ''/'' ns @ sfx))\<rparr>"
    by simp
  also have "\<dots> = \<lparr>root = r, names = butlast ns @ [last ns @ sfx]\<rparr>"
    by (simp only: root_with_suffix [OF ok ne r] names_with_suffix [OF ok ne r sfx])
  finally show ?thesis by (simp add: s)
qed

lemma joinpath_index:
  "idx = ''index.qmd'' \<or> idx = ''index.md'' \<Longrightarrow> joinpath p idx = \<lparr>root = root p, names = names p @ [idx]\<rparr>"
  by (auto simp: joinpath_def Path_def startswith_def names_update)

lemma joinpath_relative:
  "\<not> startswith c ''/'' \<Longrightarrow> joinpath p c = \<lparr>root = root p, names = names p @ names (Path c)\<rparr>"
  by (simp add: joinpath_def Let_def Path_def names_update)

lemma dropWhile_slash: "\<not> startswith (dropWhile (\<lambda>x. x = CHR ''/'') c) ''/''"
proof (cases "dropWhile (\<lambda>x. x = CHR ''/'') c")
  case Nil
  show ?thesis unfolding Nil by (simp add: startswith_def)
next
  case (Cons x xs)
  then have "dropWhile (\<lambda>x. x = CHR ''/'') c \<noteq> []" by simp
  from hd_dropWhile [OF this] have "x \<noteq> CHR ''/''" unfolding Cons by simp
  then show ?thesis unfolding Cons by (simp add: startswith_def)
qed

lemma names_dropWhile_slash: "names (Path (dropWhile (\<lambda>x. x = CHR ''/'') c)) = names (Path c)"
  by (induction c) (simp_all add: Path_def)

lemma names_ok_append: "names_ok (a @ b) = (names_ok a \<and> names_ok b)"
  by (auto simp: names_ok_def)

lemma names_ok_butlast: "names_ok ns \<Longrightarrow> names_ok (butlast ns)"
  by (auto simp: names_ok_def dest: in_set_butlastD)

lemma candidates_plain:
  assumes c: "c = (if endswith (strip_fragment_and_query link) ''.html''
                   then take (length (strip_fragment_and_query link) - 5) (strip_fragment_and_query link)
                   else strip_fragment_and_query link)"
    and rt: "rt = (if startswith c ''/'' then root (Path r) else root (Path f))"
    and ns: "ns = (if startswith c ''/'' then names (Path r) else butlast (names (Path f))) @ names (Path c)"
    and nd: "\<not> endswith c ''/''" and ne: "ns \<noteq> []"
  shows "candidates_for_quarto_source (Path f) link (Path r) =
           [\<lparr>root = rt, names = butlast ns @ [last ns @ ''.qmd'']\<rparr>,
            \<lparr>root = rt, names = butlast ns @ [last ns @ ''.md'']\<rparr>,
            \<lparr>root = rt, names = ns @ [''index.qmd'']\<rparr>,
            \<lparr>root = rt, names = ns @ [''index.md'']\<rparr>]"
proof -
  define base where "base = (if startswith c ''/''
                             then joinpath (Path r) (dropWhile (\<lambda>x. x = CHR ''/'') c)
                             else joinpath (parent (Path f)) c)"
  have cands: "candidates_for_quarto_source (Path f) link (Path r) =
                 [Path (str base @ ''.qmd''), Path (str base @ ''.md''),
                  joinpath base ''index.qmd'', joinpath base ''index.md'']"
    using nd
    unfolding candidates_for_quarto_source_def Let_def base_def c
      strip_fragment_and_query_def [symmetric]
    by simp
  have b: "base = \<lparr>root = rt, names = ns\<rparr>"
  proof (cases "startswith c ''/''")
    case True
    have "joinpath (Path r) (dropWhile (\<lambda>x. x = CHR ''/'') c)
          = \<lparr>root = root (Path r), names = names (Path r) @ names (Path c)\<rparr>"
      by (simp only: joinpath_relative [OF dropWhile_slash] names_dropWhile_slash)
    with True show ?thesis by (simp add: base_def rt ns)
  next
    case False
    from joinpath_relative [OF False, of "parent (Path f)"] False show ?thesis
      by (simp add: base_def rt ns parent_def)
  qed
  have ok: "names_ok ns"
    unfolding ns names_ok_append
    using names_ok_Path [of r] names_ok_butlast [OF names_ok_Path [of f]] names_ok_Path [of c]
    by simp
  have rts: "rt = [] \<or> rt = ''/'' \<or> rt = ''//''"
    unfolding rt using root_Path [of r] root_Path [of f] by simp
  have q: "Path (str base @ ''.qmd'') = \<lparr>root = rt, names = butlast ns @ [last ns @ ''.qmd'']\<rparr>"
    unfolding b by (rule Path_with_suffix [OF ok ne rts]) simp_all
  have m: "Path (str base @ ''.md'') = \<lparr>root = rt, names = butlast ns @ [last ns @ ''.md'']\<rparr>"
    unfolding b by (rule Path_with_suffix [OF ok ne rts]) simp_all
  have iq: "joinpath base ''index.qmd'' = \<lparr>root = rt, names = ns @ [''index.qmd'']\<rparr>"
    unfolding b by (simp add: joinpath_index)
  have im: "joinpath base ''index.md'' = \<lparr>root = rt, names = ns @ [''index.md'']\<rparr>"
    unfolding b by (simp add: joinpath_index)
  show ?thesis unfolding cands q m iq im ..
qed

lemma candidates_dotdot_other:
  "candidates_for_quarto_source (Path ''docs/guide/page.md'') ''../other'' repo_root =
     [Path ''docs/guide/../other.qmd'', Path ''docs/guide/../other.md'',
      Path ''docs/guide/../other/index.qmd'', Path ''docs/guide/../other/index.md'']"
proof -
  have c: "strip (partition_head CHR ''?'' (partition_head CHR ''#'' ''../other'')) = ''../other''"
    by code_simp
  have h: "\<not> endswith ''../other'' ''.html''" "\<not> endswith ''../other'' ''/''"
    "\<not> startswith ''../other'' ''/''"
    by code_simp+
  have b: "joinpath (parent (Path ''docs/guide/page.md'')) ''../other''
           = \<lparr>root = [], names = [''docs'', ''guide'', ''..'', ''other'']\<rparr>"
    by code_simp
  have p: "Path (str \<lparr>root = [], names = [''docs'', ''guide'', ''..'', ''other'']\<rparr> @ ''.qmd'')
             = Path ''docs/guide/../other.qmd''"
    "Path (str \<lparr>root = [], names = [''docs'', ''guide'', ''..'', ''other'']\<rparr> @ ''.md'')
             = Path ''docs/guide/../other.md''"
    "joinpath \<lparr>root = [], names = [''docs'', ''guide'', ''..'', ''other'']\<rparr> ''index.qmd''
             = Path ''docs/guide/../other/index.qmd''"
    "joinpath \<lparr>root = [], names = [''docs'', ''guide'', ''..'', ''other'']\<rparr> ''index.md''
             = Path ''docs/guide/../other/index.md''"
    by code_simp+
  show ?thesis
    unfolding candidates_for_quarto_source_def Let_def c
    by (simp only: h if_False b p)
qed

lemma other_paths:
  "Path ''docs/guide/../other.qmd'' = \<lparr>root = [], names = [''docs'', ''guide'', ''..'', ''other.qmd'']\<rparr>"
  "Path ''docs/guide/../other.md'' = \<lparr>root = [], names = [''docs'', ''guide'', ''..'', ''other.md'']\<rparr>"
  "Path ''docs/guide/../other/index.qmd'' = \<lparr>root = [], names = [''docs'', ''guide'', ''..'', ''other'', ''index.qmd'']\<rparr>"
  "Path ''docs/guide/../other/index.md'' = \<lparr>root = [], names = [''docs'', ''guide'', ''..'', ''other'', ''index.md'']\<rparr>"
  "Path ''docs/other.qmd'' = \<lparr>root = [], names = [''docs'', ''other.qmd'']\<rparr>"
  "Path ''docs/other.md'' = \<lparr>root = [], names = [''docs'', ''other.md'']\<rparr>"
  "Path ''docs/other/index.qmd'' = \<lparr>root = [], names = [''docs'', ''other'', ''index.qmd'']\<rparr>"
  "Path ''docs/other/index.md'' = \<lparr>root = [], names = [''docs'', ''other'', ''index.md'']\<rparr>"
  by code_simp+

lemma locate_below_guide:
  assumes "node_at fs (cwd fs @ [''docs'']) = Some Dir"
    and "node_at fs (cwd fs @ [''docs'', ''guide'']) = Some Dir"
  shows "locate fs (cwd fs) (''docs'' # ''guide'' # ''..'' # ns) = locate fs (cwd fs) (''docs'' # ns)"
  using assms
  by (cases "node_at fs (cwd fs)") (simp_all add: NAME_MAX_def butlast_append split: node.split)

lemma exists_relative_eq:
  assumes "locate fs (cwd fs) ns = locate fs (cwd fs) ms"
    and "length (str \<lparr>root = [], names = ns\<rparr>) < PATH_MAX"
    and "length (str \<lparr>root = [], names = ms\<rparr>) < PATH_MAX"
    and "\<not> embedded_null \<lparr>root = [], names = ns\<rparr>"
    and "\<not> embedded_null \<lparr>root = [], names = ms\<rparr>"
  shows "exists fs \<lparr>root = [], names = ns\<rparr> = exists fs \<lparr>root = [], names = ms\<rparr>"
  using assms by (simp add: exists_def stat_def walk_def)

lemma exists_below_guide:
  assumes "node_at fs (cwd fs @ [''docs'']) = Some Dir"
    and "node_at fs (cwd fs @ [''docs'', ''guide'']) = Some Dir"
  shows "exists fs (Path ''docs/guide/../other.qmd'') = exists fs (Path ''docs/other.qmd'')"
    and "exists fs (Path ''docs/guide/../other.md'') = exists fs (Path ''docs/other.md'')"
    and "exists fs (Path ''docs/guide/../other/index.qmd'') = exists fs (Path ''docs/other/index.qmd'')"
    and "exists fs (Path ''docs/guide/../other/index.md'') = exists fs (Path ''docs/other/index.md'')"
proof -
  note l = locate_below_guide [OF assms]
  show "exists fs (Path ''docs/guide/../other.qmd'') = exists fs (Path ''docs/other.qmd'')"
    unfolding other_paths
    by (rule exists_relative_eq [OF l]) (simp_all add: str_def PATH_MAX_def embedded_null_def)
  show "exists fs (Path ''docs/guide/../other.md'') = exists fs (Path ''docs/other.md'')"
    unfolding other_paths
    by (rule exists_relative_eq [OF l]) (simp_all add: str_def PATH_MAX_def embedded_null_def)
  show "exists fs (Path ''docs/guide/../other/index.qmd'') = exists fs (Path ''docs/other/index.qmd'')"
    unfolding other_paths
    by (rule exists_relative_eq [OF l]) (simp_all add: str_def PATH_MAX_def embedded_null_def)
  show "exists fs (Path ''docs/guide/../other/index.md'') = exists fs (Path ''docs/other/index.md'')"
    unfolding other_paths
    by (rule exists_relative_eq [OF l]) (simp_all add: str_def PATH_MAX_def embedded_null_def)
qed

text \<open>
  C2, as stated, fails on an inline link that the pattern of the checker does not match. The
  link \<^verbatim>\<open>[see [1]](gone)\<close> has a bracket in its text: no match begins in it, the checker
  does not look at it, and the file is reported clean although none of the four candidates
  of \<^verbatim>\<open>gone\<close> exists. The claim fails, too, where a candidate has a name of more than 255
  bytes: none of the candidates exists, and the checker reports nothing, for the test
  \<^verbatim>\<open>exists\<close> raises \<^verbatim>\<open>OSError\<close> and the run ends.
\<close>

definition nested_site :: fsys where
  "nested_site = \<lparr>cwd = [],
                   nodes = [[''docs''] \<mapsto> Dir,
                            [''docs'', ''page.md''] \<mapsto> File ''[see [1]](gone)'']\<rparr>"

definition long_site :: fsys where
  "long_site = \<lparr>cwd = [],
                 nodes = [[''docs''] \<mapsto> Dir,
                          [''docs'', ''page.md''] \<mapsto> File (''[x]('' @ replicate 300 CHR ''a'' @ '')'')]\<rparr>"

theorem unmatched_link_is_not_checked:
  "finditer False ''[see [1]](gone)'' = []
   \<and> check_internal_links lenient nested_site (Path ''docs/page.md'') (Path ''/'') = Inr []
   \<and> map (exists nested_site) (candidates_for_quarto_source (Path ''docs/page.md'') ''gone'' (Path ''/''))
       = [Inr False, Inr False, Inr False, Inr False]
   \<and> check_internal_links lenient long_site (Path ''docs/page.md'') (Path ''/'') = Inl OSError"
  by code_simp

text \<open>
  C2, amended. The checker looks at the matches of its pattern, which it finds from left to
  right, each after the end of the one before. Every link \<^verbatim>\<open>[text](dest)\<close> that stands
  after text without an opening bracket and not after an exclamation mark, with a text
  that is not empty and has no closing bracket and a destination that is not empty and has
  no closing parenthesis, is such a match. For a match whose destination, cleaned, none of
  the tests of the checker skips, the checker reports the link with its candidates exactly
  when the test \<^verbatim>\<open>exists\<close> says of every candidate that it does not exist; where this test
  raises nothing for the candidates, the link is otherwise resolved. The list returned for
  a file holds these reports for the matches of the file, in their order, and the checker
  returns a list whenever it can read the file and no match makes it raise. A link that is
  no directory link, with a base of at least one name, has four candidates, in this order:
  the base with \<^verbatim>\<open>.qmd\<close> and with \<^verbatim>\<open>.md\<close> put after its last name, and \<^verbatim>\<open>index.qmd\<close> and
  \<^verbatim>\<open>index.md\<close> in the base; the names of the base are those of the directory of the file,
  or those of the repository root for a destination that begins with a slash, and then
  those of the destination without fragment, query and a final \<^verbatim>\<open>.html\<close>. So for
  \<^verbatim>\<open>../other\<close> in \<^verbatim>\<open>docs/guide/page.md\<close> the candidates are \<^verbatim>\<open>docs/guide/../other.qmd\<close>,
  \<^verbatim>\<open>docs/guide/../other.md\<close>, \<^verbatim>\<open>docs/guide/../other/index.qmd\<close> and
  \<^verbatim>\<open>docs/guide/../other/index.md\<close>; where \<^verbatim>\<open>docs\<close> and \<^verbatim>\<open>docs/guide\<close> are directories
  these exist exactly when \<^verbatim>\<open>docs/other.qmd\<close>, \<^verbatim>\<open>docs/other.md\<close>, \<^verbatim>\<open>docs/other/index.qmd\<close>
  and \<^verbatim>\<open>docs/other/index.md\<close> do.
\<close>

theorem matched_link_broken_iff_no_candidate:
  "(CHR ''['' \<notin> set pre \<and> (pre = [] \<or> last pre \<noteq> CHR ''!'')
      \<and> label \<noteq> [] \<and> CHR '']'' \<notin> set label \<and> d \<noteq> [] \<and> CHR '')'' \<notin> set d
    \<longrightarrow> finditer False (pre @ ''['' @ label @ '']('' @ d @ '')'' @ post)
          = (label, d) # finditer False post)
   \<and> (strip_chatgpt_utm L (strip dest) = Inr link
      \<and> \<not> is_templated_link link
      \<and> \<not> list_ex (startswith link) [''http://'', ''https://'', ''mailto:'', ''#'', ''tel:'']
      \<and> link \<noteq> ''{nc[k]}''
      \<and> \<not> list_ex (contains link) SKIP_URL_SUBSTRINGS
      \<and> \<not> is_asset_link link
      \<and> \<not> contains link ''_news''
    \<longrightarrow> (check_link L fs file_path repo_root dest = Inr (Broken b)
          \<longleftrightarrow> b = (link, candidates_for_quarto_source file_path link repo_root)
              \<and> (\<forall>p \<in> set (candidates_for_quarto_source file_path link repo_root).
                    exists fs p = Inr False))
        \<and> ((\<forall>p \<in> set (candidates_for_quarto_source file_path link repo_root).
               \<exists>found. exists fs p = Inr found)
           \<longrightarrow> check_link L fs file_path repo_root dest =
                 Inr (if \<exists>p \<in> set (candidates_for_quarto_source file_path link repo_root).
                           exists fs p = Inr True
                      then Resolved
                      else Broken (link, candidates_for_quarto_source file_path link repo_root))))
   \<and> (read_text fs file_path = Inr content
    \<longrightarrow> (check_internal_links L fs file_path repo_root = Inr broken
          \<longrightarrow> broken = concat (map (\<lambda>x. case check_link L fs file_path repo_root x of
                                          Inr (Broken b) \<Rightarrow> [b] | _ \<Rightarrow> [])
                                  (map snd (finditer False content))))
        \<and> ((\<forall>x \<in> set (map snd (finditer False content)).
               \<exists>v. check_link L fs file_path repo_root x = Inr v)
           \<longrightarrow> (\<exists>bs. check_internal_links L fs file_path repo_root = Inr bs)))
   \<and> (let clean = strip_fragment_and_query lk;
           c = (if endswith clean ''.html'' then take (length clean - 5) clean else clean);
           rt = (if startswith c ''/'' then root (Path r) else root (Path f));
           ns = (if startswith c ''/'' then names (Path r) else butlast (names (Path f)))
                @ names (Path c)
       in \<not> endswith c ''/'' \<and> ns \<noteq> []
          \<longrightarrow> candidates_for_quarto_source (Path f) lk (Path r) =
                [\<lparr>root = rt, names = butlast ns @ [last ns @ ''.qmd'']\<rparr>,
                 \<lparr>root = rt, names = butlast ns @ [last ns @ ''.md'']\<rparr>,
                 \<lparr>root = rt, names = ns @ [''index.qmd'']\<rparr>,
                 \<lparr>root = rt, names = ns @ [''index.md'']\<rparr>])
   \<and> candidates_for_quarto_source (Path ''docs/guide/page.md'') ''../other'' repo_root =
       [Path ''docs/guide/../other.qmd'', Path ''docs/guide/../other.md'',
        Path ''docs/guide/../other/index.qmd'', Path ''docs/guide/../other/index.md'']
   \<and> (node_at fs (cwd fs @ [''docs'']) = Some Dir
      \<and> node_at fs (cwd fs @ [''docs'', ''guide'']) = Some Dir
    \<longrightarrow> exists fs (Path ''docs/guide/../other.qmd'') = exists fs (Path ''docs/other.qmd'')
        \<and> exists fs (Path ''docs/guide/../other.md'') = exists fs (Path ''docs/other.md'')
        \<and> exists fs (Path ''docs/guide/../other/index.qmd'') = exists fs (Path ''docs/other/index.qmd'')
        \<and> exists fs (Path ''docs/guide/../other/index.md'') = exists fs (Path ''docs/other/index.md''))"
proof -
  have scan: "CHR ''['' \<notin> set pre \<and> (pre = [] \<or> last pre \<noteq> CHR ''!'')
      \<and> label \<noteq> [] \<and> CHR '']'' \<notin> set label \<and> d \<noteq> [] \<and> CHR '')'' \<notin> set d
    \<longrightarrow> finditer False (pre @ ''['' @ label @ '']('' @ d @ '')'' @ post)
          = (label, d) # finditer False post"
    using finditer_simple_link by blast
  have one: "strip_chatgpt_utm L (strip dest) = Inr link
      \<and> \<not> is_templated_link link
      \<and> \<not> list_ex (startswith link) [''http://'', ''https://'', ''mailto:'', ''#'', ''tel:'']
      \<and> link \<noteq> ''{nc[k]}''
      \<and> \<not> list_ex (contains link) SKIP_URL_SUBSTRINGS
      \<and> \<not> is_asset_link link
      \<and> \<not> contains link ''_news''
    \<longrightarrow> (check_link L fs file_path repo_root dest = Inr (Broken b)
          \<longleftrightarrow> b = (link, candidates_for_quarto_source file_path link repo_root)
              \<and> (\<forall>p \<in> set (candidates_for_quarto_source file_path link repo_root).
                    exists fs p = Inr False))
        \<and> ((\<forall>p \<in> set (candidates_for_quarto_source file_path link repo_root).
               \<exists>found. exists fs p = Inr found)
           \<longrightarrow> check_link L fs file_path repo_root dest =
                 Inr (if \<exists>p \<in> set (candidates_for_quarto_source file_path link repo_root).
                           exists fs p = Inr True
                      then Resolved
                      else Broken (link, candidates_for_quarto_source file_path link repo_root)))"
  proof (intro impI)
    assume "strip_chatgpt_utm L (strip dest) = Inr link
      \<and> \<not> is_templated_link link
      \<and> \<not> list_ex (startswith link) [''http://'', ''https://'', ''mailto:'', ''#'', ''tel:'']
      \<and> link \<noteq> ''{nc[k]}''
      \<and> \<not> list_ex (contains link) SKIP_URL_SUBSTRINGS
      \<and> \<not> is_asset_link link
      \<and> \<not> contains link ''_news''"
    then have i: "check_link L fs file_path repo_root dest =
           (case any_exists fs (candidates_for_quarto_source file_path link repo_root) of
              Inl e \<Rightarrow> Inl e
            | Inr found \<Rightarrow>
                Inr (if found then Resolved
                     else Broken (link, candidates_for_quarto_source file_path link repo_root)))"
      using check_link_internal by blast
    from check_link_broken_iff [OF i] check_link_no_raise [OF i]
    show "(check_link L fs file_path repo_root dest = Inr (Broken b)
          \<longleftrightarrow> b = (link, candidates_for_quarto_source file_path link repo_root)
              \<and> (\<forall>p \<in> set (candidates_for_quarto_source file_path link repo_root).
                    exists fs p = Inr False))
        \<and> ((\<forall>p \<in> set (candidates_for_quarto_source file_path link repo_root).
               \<exists>found. exists fs p = Inr found)
           \<longrightarrow> check_link L fs file_path repo_root dest =
                 Inr (if \<exists>p \<in> set (candidates_for_quarto_source file_path link repo_root).
                           exists fs p = Inr True
                      then Resolved
                      else Broken (link, candidates_for_quarto_source file_path link repo_root)))"
      by blast
  qed
  have whole: "read_text fs file_path = Inr content
    \<longrightarrow> (check_internal_links L fs file_path repo_root = Inr broken
          \<longrightarrow> broken = concat (map (\<lambda>x. case check_link L fs file_path repo_root x of
                                          Inr (Broken b) \<Rightarrow> [b] | _ \<Rightarrow> [])
                                  (map snd (finditer False content))))
        \<and> ((\<forall>x \<in> set (map snd (finditer False content)).
               \<exists>v. check_link L fs file_path repo_root x = Inr v)
           \<longrightarrow> (\<exists>bs. check_internal_links L fs file_path repo_root = Inr bs))"
  proof (intro impI conjI)
    assume "read_text fs file_path = Inr content"
    then have c: "check_internal_links L fs file_path repo_root
                  = check_links L fs file_path repo_root (map snd (finditer False content))"
      by (simp add: check_internal_links_def)
    assume "check_internal_links L fs file_path repo_root = Inr broken"
    then have "check_links L fs file_path repo_root (map snd (finditer False content)) = Inr broken"
      unfolding c .
    then show "broken = concat (map (\<lambda>x. case check_link L fs file_path repo_root x of
                                        Inr (Broken b) \<Rightarrow> [b] | _ \<Rightarrow> [])
                                (map snd (finditer False content)))"
      by (rule check_links_list)
  next
    assume "read_text fs file_path = Inr content"
    then have c: "check_internal_links L fs file_path repo_root
                  = check_links L fs file_path repo_root (map snd (finditer False content))"
      by (simp add: check_internal_links_def)
    assume "\<forall>x \<in> set (map snd (finditer False content)).
             \<exists>v. check_link L fs file_path repo_root x = Inr v"
    then show "\<exists>bs. check_internal_links L fs file_path repo_root = Inr bs"
      unfolding c by (rule check_links_no_raise)
  qed
  have cands: "let clean = strip_fragment_and_query lk;
           c = (if endswith clean ''.html'' then take (length clean - 5) clean else clean);
           rt = (if startswith c ''/'' then root (Path r) else root (Path f));
           ns = (if startswith c ''/'' then names (Path r) else butlast (names (Path f)))
                @ names (Path c)
       in \<not> endswith c ''/'' \<and> ns \<noteq> []
          \<longrightarrow> candidates_for_quarto_source (Path f) lk (Path r) =
                [\<lparr>root = rt, names = butlast ns @ [last ns @ ''.qmd'']\<rparr>,
                 \<lparr>root = rt, names = butlast ns @ [last ns @ ''.md'']\<rparr>,
                 \<lparr>root = rt, names = ns @ [''index.qmd'']\<rparr>,
                 \<lparr>root = rt, names = ns @ [''index.md'']\<rparr>]"
    unfolding Let_def
    by (intro impI, elim conjE, rule candidates_plain [OF refl refl refl], assumption+)
  have ex: "candidates_for_quarto_source (Path ''docs/guide/page.md'') ''../other'' repo_root =
       [Path ''docs/guide/../other.qmd'', Path ''docs/guide/../other.md'',
        Path ''docs/guide/../other/index.qmd'', Path ''docs/guide/../other/index.md'']"
    by (rule candidates_dotdot_other)
  have dirs: "node_at fs (cwd fs @ [''docs'']) = Some Dir
      \<and> node_at fs (cwd fs @ [''docs'', ''guide'']) = Some Dir
    \<longrightarrow> exists fs (Path ''docs/guide/../other.qmd'') = exists fs (Path ''docs/other.qmd'')
        \<and> exists fs (Path ''docs/guide/../other.md'') = exists fs (Path ''docs/other.md'')
        \<and> exists fs (Path ''docs/guide/../other/index.qmd'') = exists fs (Path ''docs/other/index.qmd'')
        \<and> exists fs (Path ''docs/guide/../other/index.md'') = exists fs (Path ''docs/other/index.md'')"
    using exists_below_guide by blast
  show ?thesis by (intro conjI) (rule scan one whole cands ex dirs)+
qed

definition guide_site :: fsys where
  "guide_site =
     \<lparr>cwd = [],
      nodes = [[''docs''] \<mapsto> Dir, [''docs'', ''guide''] \<mapsto> Dir,
               [''docs'', ''guide'', ''page.md''] \<mapsto> File ''See [x](../other).'',
               [''docs'', ''other.md''] \<mapsto> File ''Other'']\<rparr>"

definition bare_site :: fsys where
  "bare_site =
     \<lparr>cwd = [],
      nodes = [[''docs''] \<mapsto> Dir, [''docs'', ''guide''] \<mapsto> Dir,
               [''docs'', ''guide'', ''page.md''] \<mapsto> File ''See [x](../other).'']\<rparr>"

theorem matched_link_broken_iff_no_candidate_witness:
  "finditer False (''See '' @ ''['' @ ''x'' @ '']('' @ ''../other'' @ '')'' @ ''.'') = [(''x'', ''../other'')]
   \<and> read_text guide_site (Path ''docs/guide/page.md'') = Inr ''See [x](../other).''
   \<and> read_text bare_site (Path ''docs/guide/page.md'') = Inr ''See [x](../other).''
   \<and> strip_chatgpt_utm lenient (strip ''../other'') = Inr ''../other''
   \<and> exists guide_site (Path ''docs/other.md'') = Inr True
   \<and> exists guide_site (Path ''docs/guide/../other.md'') = Inr True
   \<and> check_link lenient guide_site (Path ''docs/guide/page.md'') (Path ''/'') ''../other'' = Inr Resolved
   \<and> check_link lenient bare_site (Path ''docs/guide/page.md'') (Path ''/'') ''../other''
       = Inr (Broken (''../other'',
               [Path ''docs/guide/../other.qmd'', Path ''docs/guide/../other.md'',
                Path ''docs/guide/../other/index.qmd'', Path ''docs/guide/../other/index.md'']))
   \<and> check_internal_links lenient guide_site (Path ''docs/guide/page.md'') (Path ''/'') = Inr []
   \<and> check_internal_links lenient bare_site (Path ''docs/guide/page.md'') (Path ''/'') =
       Inr [(''../other'',
             [Path ''docs/guide/../other.qmd'', Path ''docs/guide/../other.md'',
              Path ''docs/guide/../other/index.qmd'', Path ''docs/guide/../other/index.md''])]
   \<and> candidates_for_quarto_source (Path ''docs/guide/page.md'') ''/a/b.html#top'' (Path ''/site'')
       = [\<lparr>root = ''/'', names = [''site'', ''a'', ''b.qmd'']\<rparr>,
          \<lparr>root = ''/'', names = [''site'', ''a'', ''b.md'']\<rparr>,
          \<lparr>root = ''/'', names = [''site'', ''a'', ''b'', ''index.qmd'']\<rparr>,
          \<lparr>root = ''/'', names = [''site'', ''a'', ''b'', ''index.md'']\<rparr>]"
proof -
  let ?f = "Path ''docs/guide/page.md''"
  let ?c = "[Path ''docs/guide/../other.qmd'', Path ''docs/guide/../other.md'',
             Path ''docs/guide/../other/index.qmd'', Path ''docs/guide/../other/index.md'']"
  have h: "strip_chatgpt_utm lenient (strip ''../other'') = Inr ''../other''
      \<and> \<not> is_templated_link ''../other''
      \<and> \<not> list_ex (startswith ''../other'') [''http://'', ''https://'', ''mailto:'', ''#'', ''tel:'']
      \<and> ''../other'' \<noteq> ''{nc[k]}''
      \<and> \<not> list_ex (contains ''../other'') SKIP_URL_SUBSTRINGS
      \<and> \<not> is_asset_link ''../other''
      \<and> \<not> contains ''../other'' ''_news''"
    by code_simp
  have s: "CHR ''['' \<notin> set ''See '' \<and> (''See '' = [] \<or> last ''See '' \<noteq> CHR ''!'')
      \<and> ''x'' \<noteq> [] \<and> CHR '']'' \<notin> set ''x'' \<and> ''../other'' \<noteq> [] \<and> CHR '')'' \<notin> set ''../other''"
    by code_simp
  have tail: "finditer False ''.'' = []" by code_simp
  have rg: "read_text guide_site ?f = Inr ''See [x](../other).''" by code_simp
  have rb: "read_text bare_site ?f = Inr ''See [x](../other).''" by code_simp
  have dg: "node_at guide_site (cwd guide_site @ [''docs'']) = Some Dir
      \<and> node_at guide_site (cwd guide_site @ [''docs'', ''guide'']) = Some Dir"
    by code_simp
  have eg: "exists guide_site (Path ''docs/other.md'') = Inr True" by code_simp
  have eb: "\<forall>p \<in> set ?c. exists bare_site p = Inr False" by code_simp
  have k: "(let clean = strip_fragment_and_query ''/a/b.html#top'';
           c = (if endswith clean ''.html'' then take (length clean - 5) clean else clean);
           rt = (if startswith c ''/'' then root (Path ''/site'') else root (Path ''docs/guide/page.md''));
           ns = (if startswith c ''/'' then names (Path ''/site'') else butlast (names (Path ''docs/guide/page.md'')))
                @ names (Path c)
       in \<not> endswith c ''/'' \<and> ns \<noteq> [] \<and> rt = ''/'' \<and> ns = [''site'', ''a'', ''b''])"
    by code_simp
  have mg: "map (exists guide_site) ?c = [Inr False, Inr True, Inr False, Inr False]"
    by code_simp
  have cg: "check_internal_links lenient guide_site ?f (Path ''/'') = Inr []" by code_simp
  have cb: "check_internal_links lenient bare_site ?f (Path ''/'') = Inr [(''../other'', ?c)]"
    by code_simp
  note tg = matched_link_broken_iff_no_candidate [where pre = "''See ''" and label = "''x''"
      and d = "''../other''" and post = "''.''" and L = lenient and dest = "''../other''"
      and link = "''../other''" and fs = guide_site and file_path = "?f" and repo_root = "Path ''/''"
      and b = "(''../other'', ?c)" and content = "''See [x](../other).''" and broken = "[]"
      and lk = "''/a/b.html#top''" and r = "''/site''" and f = "''docs/guide/page.md''"]
  note tb = matched_link_broken_iff_no_candidate [where pre = "''See ''" and label = "''x''"
      and d = "''../other''" and post = "''.''" and L = lenient and dest = "''../other''"
      and link = "''../other''" and fs = bare_site and file_path = "?f" and repo_root = "Path ''/''"
      and b = "(''../other'', ?c)" and content = "''See [x](../other).''" and broken = "[]"
      and lk = "''/a/b.html#top''" and r = "''/site''" and f = "''docs/guide/page.md''"]
  note g1 = tg [THEN conjunct1]
  note g2 = tg [THEN conjunct2, THEN conjunct1]
  note g4 = tg [THEN conjunct2, THEN conjunct2, THEN conjunct2, THEN conjunct1]
  note g5 = tg [THEN conjunct2, THEN conjunct2, THEN conjunct2, THEN conjunct2, THEN conjunct1]
  note g6 = tg [THEN conjunct2, THEN conjunct2, THEN conjunct2, THEN conjunct2, THEN conjunct2]
  note b2 = tb [THEN conjunct2, THEN conjunct1]
  from g1 [THEN mp, OF s]
  have f: "finditer False (''See '' @ ''['' @ ''x'' @ '']('' @ ''../other'' @ '')'' @ ''.'')
           = [(''x'', ''../other'')]"
    by (simp only: tail)
  note c = g5
  note e = g6 [THEN mp, OF dg, THEN conjunct2, THEN conjunct1]
  have e2: "exists guide_site (Path ''docs/guide/../other.md'') = Inr True"
    unfolding e by (rule eg)
  from mg have ag: "\<forall>p \<in> set ?c. \<exists>found. exists guide_site p = Inr found" by auto
  from e2 have xg: "\<exists>p \<in> set ?c. exists guide_site p = Inr True" by simp
  from g2 [THEN mp, OF h, THEN conjunct2, unfolded c, THEN mp, OF ag] xg
  have vg: "check_link lenient guide_site ?f (Path ''/'') ''../other'' = Inr Resolved"
    by simp
  from b2 [THEN mp, OF h, THEN conjunct1, unfolded c] eb
  have vb: "check_link lenient bare_site ?f (Path ''/'') ''../other''
            = Inr (Broken (''../other'', ?c))"
    by blast
  from g4 k have g: "candidates_for_quarto_source (Path ''docs/guide/page.md'') ''/a/b.html#top'' (Path ''/site'')
       = [\<lparr>root = ''/'', names = [''site'', ''a'', ''b.qmd'']\<rparr>,
          \<lparr>root = ''/'', names = [''site'', ''a'', ''b.md'']\<rparr>,
          \<lparr>root = ''/'', names = [''site'', ''a'', ''b'', ''index.qmd'']\<rparr>,
          \<lparr>root = ''/'', names = [''site'', ''a'', ''b'', ''index.md'']\<rparr>]"
    unfolding Let_def by simp
  from f rg rb h eg e2 vg vb cg cb g show ?thesis by blast
qed

section \<open>Properties of the report writer\<close>

lemma report_path: "Path ''broken_links.md'' = \<lparr>root = [], names = [''broken_links.md'']\<rparr>"
  by code_simp

lemma report_walk:
  "walk fs (Path ''broken_links.md'') =
     (case node_at fs (cwd fs) of
        None \<Rightarrow> Inl ENOENT
      | Some (File bytes) \<Rightarrow> Inl ENOTDIR
      | Some Dir \<Rightarrow> Inr (cwd fs @ [''broken_links.md'']))"
  by (simp add: report_path walk_def str_def PATH_MAX_def NAME_MAX_def split: option.split node.split)

lemma report_position:
  "position fs (Path ''broken_links.md'') =
     (if node_at fs (cwd fs) = Some Dir then Some (cwd fs @ [''broken_links.md'']) else None)"
  by (simp add: position_def report_walk split: option.split node.split)

lemma report_no_null: "\<not> embedded_null (Path ''broken_links.md'')"
  by (simp add: report_path embedded_null_def str_def)

lemma node_at_below: "node_at fs (pos @ [n]) = nodes fs (pos @ [n])"
  by (simp add: node_at_def)

lemma report_exists:
  "exists fs (Path ''broken_links.md'')
   = Inr (node_at fs (cwd fs) = Some Dir \<and> nodes fs (cwd fs @ [''broken_links.md'']) \<noteq> None)"
  by (simp add: exists_def stat_def report_walk report_no_null ignore_error_def node_at_below
           split: option.split node.split)

lemma unlink_result:
  assumes "unlink fs p = Inr fs'"
  shows "\<exists>pos. position fs p = Some pos \<and> fs' = fs\<lparr>nodes := (nodes fs)(pos := None)\<rparr>"
  using assms by (auto simp: unlink_def split: option.splits node.splits if_splits)

lemma empty_report_cases:
  "write_broken_links_report E fs [] repo_root = (fs, None)
   \<or> write_broken_links_report E fs [] repo_root = (fs, Some OSError)
   \<or> (node_at fs (cwd fs) = Some Dir
      \<and> write_broken_links_report E fs [] repo_root
          = (fs\<lparr>nodes := (nodes fs)(cwd fs @ [''broken_links.md''] := None)\<rparr>, None))"
proof (cases "node_at fs (cwd fs) = Some Dir \<and> nodes fs (cwd fs @ [''broken_links.md'']) \<noteq> None")
  case False
  then have e: "exists fs (Path ''broken_links.md'') = Inr False"
    unfolding report_exists by simp
  show ?thesis by (simp add: write_broken_links_report_def e)
next
  case True
  then have x: "exists fs (Path ''broken_links.md'') = Inr True"
    unfolding report_exists by simp
  show ?thesis
  proof (cases "unlink fs (Path ''broken_links.md'')")
    case (Inl e)
    then show ?thesis
      by (cases e) (auto simp: write_broken_links_report_def x unlink_def report_no_null
                         split: option.splits node.splits)
  next
    case (Inr fs')
    from unlink_result [OF this] obtain pos where
      "position fs (Path ''broken_links.md'') = Some pos"
      and fs': "fs' = fs\<lparr>nodes := (nodes fs)(pos := None)\<rparr>"
      by blast
    then have "node_at fs (cwd fs) = Some Dir" and "pos = cwd fs @ [''broken_links.md'']"
      by (auto simp: report_position split: if_splits)
    with Inr fs' show ?thesis
      by (simp add: write_broken_links_report_def x)
  qed
qed

text \<open>
  C8. With no broken links the report writer writes nothing. Where \<^verbatim>\<open>broken_links.md\<close> in
  the working directory is a file, the file is removed, nothing else changes and the report
  no longer exists; where the report does not exist the file system is left as it was.
  The test for the report raises nothing. Whatever the case, every node is as before or is
  the removed report.
\<close>

theorem empty_report_removes_old_report:
  "(node_at fs (cwd fs) = Some Dir \<and> nodes fs (cwd fs @ [''broken_links.md'']) = Some (File old)
      \<longrightarrow> exists fs (Path ''broken_links.md'') = Inr True
          \<and> write_broken_links_report E fs [] repo_root
              = (fs\<lparr>nodes := (nodes fs)(cwd fs @ [''broken_links.md''] := None)\<rparr>, None)
          \<and> exists (fst (write_broken_links_report E fs [] repo_root)) (Path ''broken_links.md'')
              = Inr False)
   \<and> (exists fs (Path ''broken_links.md'') = Inr False
      \<longrightarrow> write_broken_links_report E fs [] repo_root = (fs, None))
   \<and> (exists fs (Path ''broken_links.md'') = Inr True
      \<or> exists fs (Path ''broken_links.md'') = Inr False)
   \<and> cwd (fst (write_broken_links_report E fs [] repo_root)) = cwd fs
   \<and> (\<forall>q. nodes (fst (write_broken_links_report E fs [] repo_root)) q = nodes fs q
          \<or> (q = cwd fs @ [''broken_links.md'']
              \<and> nodes (fst (write_broken_links_report E fs [] repo_root)) q = None))"
proof (intro conjI impI allI)
  assume a: "node_at fs (cwd fs) = Some Dir \<and> nodes fs (cwd fs @ [''broken_links.md'']) = Some (File old)"
  then show e: "exists fs (Path ''broken_links.md'') = Inr True"
    by (simp add: report_exists)
  from a e show w: "write_broken_links_report E fs [] repo_root
              = (fs\<lparr>nodes := (nodes fs)(cwd fs @ [''broken_links.md''] := None)\<rparr>, None)"
    by (simp add: write_broken_links_report_def unlink_def report_position report_no_null node_at_below)
  show "exists (fst (write_broken_links_report E fs [] repo_root)) (Path ''broken_links.md'') = Inr False"
    unfolding w by (simp add: report_exists)
next
  assume "exists fs (Path ''broken_links.md'') = Inr False"
  then show "write_broken_links_report E fs [] repo_root = (fs, None)"
    by (simp add: write_broken_links_report_def)
next
  show "exists fs (Path ''broken_links.md'') = Inr True
      \<or> exists fs (Path ''broken_links.md'') = Inr False"
    unfolding report_exists by auto
next
  show "cwd (fst (write_broken_links_report E fs [] repo_root)) = cwd fs"
    using empty_report_cases [of E fs repo_root] by auto
next
  fix q
  show "nodes (fst (write_broken_links_report E fs [] repo_root)) q = nodes fs q
          \<or> (q = cwd fs @ [''broken_links.md'']
              \<and> nodes (fst (write_broken_links_report E fs [] repo_root)) q = None)"
    using empty_report_cases [of E fs repo_root]
    by (cases "q = cwd fs @ [''broken_links.md'']") auto
qed

definition stale_site :: fsys where
  "stale_site = \<lparr>cwd = [''repo''],
                  nodes = [[''repo''] \<mapsto> Dir,
                           [''repo'', ''broken_links.md''] \<mapsto> File ''## In `a.md`'',
                           [''repo'', ''a.md''] \<mapsto> File ''text'']\<rparr>"

definition github :: environ where
  "github = \<lparr>repo = Some ''fs-ise/theses'', server = ''https://github.com''\<rparr>"

theorem empty_report_removes_old_report_witness:
  "node_at stale_site (cwd stale_site) = Some Dir
   \<and> nodes stale_site (cwd stale_site @ [''broken_links.md'']) = Some (File ''## In `a.md`'')
   \<and> exists stale_site (Path ''broken_links.md'') = Inr True
   \<and> exists (fst (write_broken_links_report github stale_site [] (Path ''/repo''))) (Path ''broken_links.md'') = Inr False
   \<and> exists (fst (write_broken_links_report github stale_site [] (Path ''/repo''))) (Path ''a.md'') = Inr True
   \<and> snd (write_broken_links_report github stale_site [] (Path ''/repo'')) = None"
proof -
  have h: "node_at stale_site (cwd stale_site) = Some Dir
   \<and> nodes stale_site (cwd stale_site @ [''broken_links.md'']) = Some (File ''## In `a.md`'')"
    by code_simp
  have k: "exists (fst (write_broken_links_report github stale_site [] (Path ''/repo''))) (Path ''a.md'') = Inr True"
    by code_simp
  note t = empty_report_removes_old_report [of stale_site "''## In `a.md`''" github "Path ''/repo''"]
  from t h have e: "exists stale_site (Path ''broken_links.md'') = Inr True"
    and w: "write_broken_links_report github stale_site [] (Path ''/repo'')
              = (stale_site\<lparr>nodes := (nodes stale_site)(cwd stale_site @ [''broken_links.md''] := None)\<rparr>, None)"
    and n: "exists (fst (write_broken_links_report github stale_site [] (Path ''/repo''))) (Path ''broken_links.md'') = Inr False"
    by blast+
  from w have s: "snd (write_broken_links_report github stale_site [] (Path ''/repo'')) = None"
    by simp
  from h e n k s show ?thesis by blast
qed

section \<open>Properties of the ignore-list normalizer\<close>

lemma linebreak_isspace: "linebreak c \<Longrightarrow> isspace c"
  by (auto simp: linebreak_def isspace_def Let_def)

lemma isspace_LF: "isspace CHR 0x0A"
  by (simp add: isspace_def)

lemma linebreak_LF: "linebreak CHR 0x0A"
  by (simp add: linebreak_def)

lemma set_rstrip: "set (rstrip s) \<subseteq> set s"
  by (auto simp: rstrip_def dest: set_dropWhileD)

lemma set_strip: "set (strip s) \<subseteq> set s"
  using set_rstrip by (auto simp: strip_def lstrip_def dest!: set_dropWhileD)

lemma rstrip_idem: "rstrip (rstrip s) = rstrip s"
  by (simp add: rstrip_def)

lemma strip_rstrip: "strip (rstrip s) = strip s"
  by (simp add: strip_def rstrip_idem)

lemma rstrip_last: "rstrip s \<noteq> [] \<Longrightarrow> \<not> isspace (last (rstrip s))"
proof -
  assume "rstrip s \<noteq> []"
  then have "dropWhile isspace (rev s) \<noteq> []" by (simp add: rstrip_def)
  then have "\<not> isspace (hd (dropWhile isspace (rev s)))" by (rule hd_dropWhile)
  then show ?thesis by (simp add: rstrip_def last_rev)
qed

lemma rstrip_fix: "s \<noteq> [] \<Longrightarrow> \<not> isspace (last s) \<Longrightarrow> rstrip s = s"
proof -
  assume "s \<noteq> []" and "\<not> isspace (last s)"
  then have "dropWhile isspace (rev s) = rev s"
    by (simp add: dropWhile_eq_self_iff hd_rev)
  then show ?thesis by (simp add: rstrip_def)
qed

lemma rstrip_snoc_space: "isspace c \<Longrightarrow> rstrip (s @ [c]) = rstrip s"
  by (simp add: rstrip_def)

lemma strip_ends:
  assumes "strip s \<noteq> []"
  shows "\<not> isspace (hd (strip s))" and "\<not> isspace (last (strip s))"
proof -
  from assms show h: "\<not> isspace (hd (strip s))"
    unfolding strip_def lstrip_def by (rule hd_dropWhile)
  from assms have ne: "rstrip s \<noteq> []" by (auto simp: strip_def lstrip_def)
  have "last (dropWhile isspace (rstrip s)) = last (rstrip s)"
    using assms unfolding strip_def lstrip_def
    by (metis append_take_drop_id last_appendR takeWhile_dropWhile_id)
  with rstrip_last [OF ne] show "\<not> isspace (last (strip s))"
    by (simp add: strip_def lstrip_def)
qed

lemma strip_fix: "s \<noteq> [] \<Longrightarrow> \<not> isspace (hd s) \<Longrightarrow> \<not> isspace (last s) \<Longrightarrow> strip s = s"
  by (simp add: strip_def lstrip_def rstrip_fix dropWhile_eq_self_iff)

lemma strip_idem: "strip (strip s) = strip s"
proof (cases "strip s = []")
  case True
  have "strip [] = []" by (simp add: strip_def lstrip_def rstrip_def)
  with True show ?thesis by simp
next
  case False
  from strip_fix [OF False strip_ends [OF False]] show ?thesis .
qed

lemma rstrip_strip: "rstrip (strip s) = strip s"
proof (cases "strip s = []")
  case True
  then show ?thesis by (simp add: rstrip_def)
next
  case False
  from rstrip_fix [OF False strip_ends(2) [OF False]] show ?thesis .
qed

lemma rstrip_not_Nil: "strip s \<noteq> [] \<Longrightarrow> rstrip s \<noteq> []"
  by (auto simp: strip_def lstrip_def)

subsection \<open>Lines\<close>

lemma splitlines_all_no_break: "\<forall>l \<in> set (splitlines t). \<forall>c \<in> set l. \<not> linebreak c"
proof (induction t)
  case Nil
  then show ?case by simp
next
  case (Cons a t)
  show ?case
  proof (cases "linebreak a")
    case True
    with Cons show ?thesis by simp
  next
    case False
    show ?thesis
    proof (cases "splitlines t")
      case Nil
      with False show ?thesis by simp
    next
      case (Cons m ms)
      with False \<open>\<forall>l \<in> set (splitlines t). \<forall>c \<in> set l. \<not> linebreak c\<close>
      show ?thesis by simp
    qed
  qed
qed

lemma splitlines_no_break: "l \<in> set (splitlines t) \<Longrightarrow> c \<in> set l \<Longrightarrow> \<not> linebreak c"
  using splitlines_all_no_break by blast

lemma splitlines_line:
  "\<forall>c \<in> set l. \<not> linebreak c \<Longrightarrow> splitlines (l @ CHR 0x0A # r) = l # splitlines r"
proof (induction l)
  case Nil
  then show ?case by (simp add: linebreak_LF)
next
  case (Cons a l)
  then show ?case by simp
qed

lemma splitlines_join:
  "\<forall>l \<in> set (x # ls). \<forall>c \<in> set l. \<not> linebreak c \<Longrightarrow>
   splitlines (join [CHR 0x0A] (x # ls) @ [CHR 0x0A]) = x # ls"
proof (induction ls arbitrary: x)
  case Nil
  then have "splitlines (x @ CHR 0x0A # []) = x # splitlines []"
    by (intro splitlines_line) simp
  then show ?case by simp
next
  case (Cons y ys)
  from Cons.prems have x: "\<forall>c \<in> set x. \<not> linebreak c"
    and r: "\<forall>l \<in> set (y # ys). \<forall>c \<in> set l. \<not> linebreak c" by simp_all
  have "join [CHR 0x0A] (x # y # ys) @ [CHR 0x0A]
        = x @ CHR 0x0A # (join [CHR 0x0A] (y # ys) @ [CHR 0x0A])" by simp
  with splitlines_line [OF x] Cons.IH [OF r] show ?case by simp
qed

lemma last_join:
  "ls \<noteq> [] \<Longrightarrow> last ls \<noteq> [] \<Longrightarrow> join sep ls \<noteq> [] \<and> last (join sep ls) = last (last ls)"
proof (induction sep ls rule: join.induct)
  case (1 sep)
  then show ?case by simp
next
  case (2 sep x)
  then show ?case by simp
next
  case (3 sep x y ys)
  then show ?case by simp
qed

lemma join_snoc_empty: "ls \<noteq> [] \<Longrightarrow> join sep (ls @ [[]]) = join sep ls @ sep"
proof (induction sep ls rule: join.induct)
  case (1 sep)
  then show ?case by simp
next
  case (2 sep x)
  then show ?case by simp
next
  case (3 sep x y ys)
  then show ?case by simp
qed

subsection \<open>The two loops\<close>

definition comment_line :: "string \<Rightarrow> bool" where
  "comment_line l = (strip l \<noteq> [] \<and> startswith (strip l) ''#'')"

definition entry_line :: "string \<Rightarrow> bool" where
  "entry_line l = (strip l \<noteq> [] \<and> \<not> startswith (strip l) ''#'')"

lemma classify_eq:
  "classify ls = (map rstrip (filter comment_line ls), map strip (filter entry_line ls))"
  by (induction ls) (auto simp: Let_def comment_line_def entry_line_def)

lemma dedupe_keys:
  "set (map lower (dedupe seen es)) = set (map lower es) - seen"
  by (induction es arbitrary: seen) (auto simp: Let_def)

lemma dedupe_distinct: "distinct (map lower (dedupe seen es))"
proof (induction es arbitrary: seen)
  case Nil
  then show ?case by simp
next
  case (Cons e es)
  have "lower e \<notin> set (map lower (dedupe (insert (lower e) seen) es))"
    unfolding dedupe_keys by simp
  with Cons show ?case by (simp add: Let_def)
qed

lemma dedupe_subset: "set (dedupe seen es) \<subseteq> set es"
  by (induction es arbitrary: seen) (auto simp: Let_def)

lemma dedupe_first_seen:
  "e \<in> set (dedupe seen es) \<Longrightarrow> find (\<lambda>x. lower x = lower e) es = Some e"
proof (induction es arbitrary: seen)
  case Nil
  then show ?case by simp
next
  case (Cons x es)
  show ?case
  proof (cases "lower x \<in> seen")
    case True
    with Cons.prems have e: "e \<in> set (dedupe seen es)" by (simp add: Let_def)
    then have "lower e \<in> set (map lower (dedupe seen es))" by simp
    then have "lower e \<notin> seen" unfolding dedupe_keys by simp
    with True have "lower x \<noteq> lower e" by auto
    with Cons.IH [OF e] show ?thesis by simp
  next
    case False
    with Cons.prems have "e = x \<or> e \<in> set (dedupe (insert (lower x) seen) es)"
      by (simp add: Let_def)
    then show ?thesis
    proof
      assume "e = x"
      then show ?thesis by simp
    next
      assume e: "e \<in> set (dedupe (insert (lower x) seen) es)"
      then have "lower e \<in> set (map lower (dedupe (insert (lower x) seen) es))" by simp
      then have "lower x \<noteq> lower e" unfolding dedupe_keys by auto
      with Cons.IH [OF e] show ?thesis by simp
    qed
  qed
qed

lemma dedupe_fix:
  "distinct (map lower es) \<Longrightarrow> lower ` set es \<inter> seen = {} \<Longrightarrow> dedupe seen es = es"
proof (induction es arbitrary: seen)
  case Nil
  then show ?case by simp
next
  case (Cons e es)
  from Cons.prems have "lower e \<notin> seen" by auto
  moreover from Cons.prems have "lower ` set es \<inter> insert (lower e) seen = {}" by auto
  moreover from Cons.prems have "distinct (map lower es)" by simp
  ultimately show ?case using Cons.IH by (simp add: Let_def)
qed

lemma distinct_keys_sort:
  "distinct (map f xs) \<Longrightarrow> distinct (map f (sort_key f xs))"
  by (simp add: distinct_map)

definition comments_of :: "string \<Rightarrow> string list" where
  \<comment> \<open>the comment lines of a text, each without its trailing white space\<close>
  "comments_of t = map rstrip (filter comment_line (splitlines t))"

definition entries_of :: "string \<Rightarrow> string list" where
  \<comment> \<open>the other lines of a text that are not blank, each stripped\<close>
  "entries_of t = map strip (filter entry_line (splitlines t))"

definition sorted_entries :: "string \<Rightarrow> string list" where
  "sorted_entries t = sort_key lower (dedupe {} (entries_of t))"

definition layout :: "string list \<Rightarrow> string list \<Rightarrow> string" where
  \<comment> \<open>comments, one blank line where both parts have lines, entries; each line ended\<close>
  "layout C S =
     (if C = [] \<and> S = [] then [CHR 0x0A]
      else join [CHR 0x0A] (C @ (if C \<noteq> [] \<and> S \<noteq> [] then [[]] else []) @ S) @ [CHR 0x0A])"

lemma comment_ends: "c \<in> set (comments_of t) \<Longrightarrow> c \<noteq> [] \<and> \<not> isspace (last c)"
  by (auto simp: comments_of_def comment_line_def dest: rstrip_not_Nil rstrip_last)

lemma entry_ends: "e \<in> set (entries_of t) \<Longrightarrow> e \<noteq> [] \<and> \<not> isspace (last e)"
  by (auto simp: entries_of_def entry_line_def dest: strip_ends(2))

lemma set_sorted_entries: "set (sorted_entries t) \<subseteq> set (entries_of t)"
  using dedupe_subset by (simp add: sorted_entries_def)

lemma rstrip_join_fix:
  assumes "ls \<noteq> []" and "last ls \<noteq> []" and "\<not> isspace (last (last ls))"
  shows "rstrip (join sep ls) = join sep ls"
  using last_join [OF assms(1,2), of sep] assms(3) by (simp add: rstrip_fix)

lemma out_text_layout: "out_text t = layout (comments_of t) (sorted_entries t)"
proof -
  define C where "C = comments_of t"
  define S where "S = sorted_entries t"
  have o: "out_text t = rstrip (join [CHR 0x0A] ((if C \<noteq> [] then C @ [[]] else []) @ S)) @ [CHR 0x0A]"
    by (simp add: out_text_def classify_eq Let_def C_def S_def comments_of_def
                  sorted_entries_def entries_of_def)
  show ?thesis
  proof (cases "S = []")
    case False
    let ?ls = "(if C \<noteq> [] then C @ [[]] else []) @ S"
    from False have l: "?ls \<noteq> []" "last ?ls = last S" by simp_all
    from False have "last S \<in> set (entries_of t)"
      using set_sorted_entries [of t] last_in_set [of S] by (auto simp: S_def)
    then have "last S \<noteq> [] \<and> \<not> isspace (last (last S))" by (rule entry_ends)
    with l have "rstrip (join [CHR 0x0A] ?ls) = join [CHR 0x0A] ?ls"
      by (intro rstrip_join_fix) simp_all
    with False show ?thesis
      unfolding o layout_def C_def [symmetric] S_def [symmetric] by simp
  next
    case True
    show ?thesis
    proof (cases "C = []")
      case True
      with \<open>S = []\<close> show ?thesis
        unfolding o layout_def C_def [symmetric] S_def [symmetric]
        by (simp add: rstrip_def)
    next
      case False
      then have "last C \<in> set (comments_of t)" by (simp add: C_def)
      then have "last C \<noteq> [] \<and> \<not> isspace (last (last C))" by (rule comment_ends)
      with False have "rstrip (join [CHR 0x0A] C) = join [CHR 0x0A] C"
        by (intro rstrip_join_fix) simp_all
      with False \<open>S = []\<close> show ?thesis
        unfolding o layout_def C_def [symmetric] S_def [symmetric]
        by (simp add: join_snoc_empty rstrip_snoc_space isspace_LF)
    qed
  qed
qed

lemma comment_no_break: "c \<in> set (comments_of t) \<Longrightarrow> x \<in> set c \<Longrightarrow> \<not> linebreak x"
  using set_rstrip by (auto simp: comments_of_def dest: splitlines_no_break)

lemma entry_no_break: "e \<in> set (entries_of t) \<Longrightarrow> x \<in> set e \<Longrightarrow> \<not> linebreak x"
  using set_strip by (auto simp: entries_of_def dest: splitlines_no_break)

lemma splitlines_layout:
  assumes "\<forall>l \<in> set C \<union> set S. \<forall>x \<in> set l. \<not> linebreak x"
  shows "splitlines (layout C S)
         = (if C = [] \<and> S = [] then [[]] else C @ (if C \<noteq> [] \<and> S \<noteq> [] then [[]] else []) @ S)"
proof (cases "C = [] \<and> S = []")
  case True
  then show ?thesis by (simp add: layout_def linebreak_LF)
next
  case False
  let ?ls = "C @ (if C \<noteq> [] \<and> S \<noteq> [] then [[]] else []) @ S"
  from False obtain x ls where ls: "?ls = x # ls" by (cases ?ls) auto
  from assms have "\<forall>l \<in> set ?ls. \<forall>c \<in> set l. \<not> linebreak c" by auto
  with ls have "splitlines (join [CHR 0x0A] ?ls @ [CHR 0x0A]) = ?ls"
    using splitlines_join [of x ls] by simp
  with False show ?thesis by (simp add: layout_def)
qed

lemma comments_are_comments:
  "c \<in> set (comments_of t) \<Longrightarrow> comment_line c \<and> \<not> entry_line c \<and> rstrip c = c"
  by (auto simp: comments_of_def comment_line_def entry_line_def strip_rstrip rstrip_idem)

lemma entries_are_entries:
  "e \<in> set (entries_of t) \<Longrightarrow> entry_line e \<and> \<not> comment_line e \<and> strip e = e"
  by (auto simp: entries_of_def comment_line_def entry_line_def strip_idem)

lemma blank_is_neither: "\<not> comment_line [] \<and> \<not> entry_line []"
  by (simp add: comment_line_def entry_line_def strip_def lstrip_def rstrip_def)

lemma filter_all: "\<forall>x \<in> set xs. P x \<Longrightarrow> filter P xs = xs"
  by (simp add: filter_id_conv)

lemma filter_none: "\<forall>x \<in> set xs. \<not> P x \<Longrightarrow> filter P xs = []"
  by (simp add: filter_empty_conv)

lemma map_fix: "\<forall>x \<in> set xs. f x = x \<Longrightarrow> map f xs = xs"
  by (simp add: map_idI)

lemma sorted_entries_keys:
  "sorted (map lower (sorted_entries t))" "distinct (map lower (sorted_entries t))"
  by (simp_all add: sorted_entries_def distinct_keys_sort dedupe_distinct)

lemma sorted_entries_fix:
  assumes "sorted (map lower S)" and "distinct (map lower S)"
  shows "sort_key lower (dedupe {} S) = S"
  using assms by (simp add: dedupe_fix sort_key_id_if_sorted)

lemma out_text_parts:
  "comments_of (out_text t) = comments_of t \<and> sorted_entries (out_text t) = sorted_entries t"
proof -
  define C where "C = comments_of t"
  define S where "S = sorted_entries t"
  have cs: "\<forall>c \<in> set C. comment_line c \<and> \<not> entry_line c \<and> rstrip c = c"
    unfolding C_def using comments_are_comments by blast
  have ss: "\<forall>e \<in> set S. entry_line e \<and> \<not> comment_line e \<and> strip e = e"
    unfolding S_def using entries_are_entries set_sorted_entries by blast
  have nb: "\<forall>l \<in> set C \<union> set S. \<forall>x \<in> set l. \<not> linebreak x"
    unfolding C_def S_def using comment_no_break entry_no_break set_sorted_entries by blast
  have fc: "filter comment_line C = C" "filter entry_line C = []"
    using cs by (simp_all add: filter_all filter_none)
  have fs: "filter comment_line S = []" "filter entry_line S = S"
    using ss by (simp_all add: filter_all filter_none)
  have mc: "map rstrip C = C" using cs by (simp add: map_fix)
  have ms: "map strip S = S" using ss by (simp add: map_fix)
  have sp: "splitlines (out_text t)
        = (if C = [] \<and> S = [] then [[]] else C @ (if C \<noteq> [] \<and> S \<noteq> [] then [[]] else []) @ S)"
    unfolding out_text_layout C_def [symmetric] S_def [symmetric]
    by (rule splitlines_layout [OF nb])
  have c: "comments_of (out_text t) = C"
    unfolding comments_of_def [of "out_text t"] sp
    using fc fs mc blank_is_neither by simp
  have e: "entries_of (out_text t) = S"
    unfolding entries_of_def [of "out_text t"] sp
    using fc fs ms blank_is_neither by simp
  have "sorted_entries (out_text t) = S"
    unfolding sorted_entries_def [of "out_text t"] e
    unfolding S_def by (rule sorted_entries_fix [OF sorted_entries_keys])
  with c show ?thesis by (simp add: C_def S_def)
qed

lemma out_text_idem: "out_text (out_text t) = out_text t"
  by (simp add: out_text_layout [of "out_text t"] out_text_parts out_text_layout [of t, symmetric])

subsection \<open>The file\<close>

lemma read_text_file:
  assumes "read_text fs p = Inr t"
  shows "\<exists>pos b. position fs p = Some pos \<and> node_at fs pos = Some (File b)
                 \<and> exists fs p = Inr True \<and> \<not> embedded_null p"
  using assms
  by (auto simp: read_text_def exists_def stat_def position_def
           split: option.splits node.splits if_splits sum.splits)

lemma sort_lycheeignore_file_read:
  assumes "read_text fs p = Inr t"
  shows "\<exists>pos. position fs p = Some pos
           \<and> sort_lycheeignore_file fs p =
               Inr (if t = out_text t then (fs, False)
                    else (fs\<lparr>nodes := (nodes fs)(pos \<mapsto> File (out_text t))\<rparr>, True))"
proof -
  from read_text_file [OF assms] obtain pos b where
    pos: "position fs p = Some pos" and f: "node_at fs pos = Some (File b)"
    and e: "exists fs p = Inr True" and n: "\<not> embedded_null p"
    by blast
  then have w: "write_text fs p (out_text t) = Inr (fs\<lparr>nodes := (nodes fs)(pos \<mapsto> File (out_text t))\<rparr>)"
    by (simp add: write_text_def)
  from e assms w have "sort_lycheeignore_file fs p =
               Inr (if t = out_text t then (fs, False)
                    else (fs\<lparr>nodes := (nodes fs)(pos \<mapsto> File (out_text t))\<rparr>, True))"
    by (simp add: sort_lycheeignore_file_def)
  with pos show ?thesis by blast
qed

text \<open>
  C6, as stated, fails in two ways. A comment line is not kept verbatim: its trailing white
  space is removed, so the line \<^verbatim>\<open># c\<close> followed by two spaces is not a line of the
  output. And with comments but no entries the output has no blank line.
\<close>

theorem comments_are_trimmed_and_alone:
  "out_text (''# c  '' @ [CHR 0x0A] @ ''x'' @ [CHR 0x0A]) = ''# c'' @ [CHR 0x0A, CHR 0x0A] @ ''x'' @ [CHR 0x0A]
   \<and> ''# c  '' \<notin> set (splitlines (out_text (''# c  '' @ [CHR 0x0A] @ ''x'' @ [CHR 0x0A])))
   \<and> out_text (''# c'' @ [CHR 0x0A]) = ''# c'' @ [CHR 0x0A]
   \<and> [] \<notin> set (splitlines (out_text (''# c'' @ [CHR 0x0A])))"
  by code_simp

text \<open>
  C6, amended. The output is every comment line of the file (a line whose first character
  after white space is \<^verbatim>\<open>#\<close>, wherever it stands), without its trailing white space, in
  the original order; then one blank line where there are both comments and entries; then
  the entries: the other non-blank lines, stripped, one for each lower-cased form, the first
  seen, sorted by lower-cased form; every line ended by a newline, and a single newline
  where there is no line at all. The file is rewritten exactly when the text read differs
  from this output, and then holds it; a missing file is left alone.
\<close>

theorem normalizer_output:
  "out_text t = layout (comments_of t) (sorted_entries t)
   \<and> sorted (map lower (sorted_entries t))
   \<and> distinct (map lower (sorted_entries t))
   \<and> set (map lower (sorted_entries t)) = set (map lower (entries_of t))
   \<and> (\<forall>s \<in> set (sorted_entries t). find (\<lambda>e. lower e = lower s) (entries_of t) = Some s)
   \<and> (read_text fs p = Inr t \<longrightarrow>
        (\<exists>pos. position fs p = Some pos
           \<and> sort_lycheeignore_file fs p =
               Inr (if t = out_text t then (fs, False)
                    else (fs\<lparr>nodes := (nodes fs)(pos \<mapsto> File (out_text t))\<rparr>, True))))
   \<and> (exists fs p = Inr False \<longrightarrow> sort_lycheeignore_file fs p = Inr (fs, False))
   \<and> (exists fs p = Inl e \<longrightarrow> sort_lycheeignore_file fs p = Inl e)"
proof (intro conjI impI ballI)
  show "out_text t = layout (comments_of t) (sorted_entries t)"
    by (rule out_text_layout)
  show "sorted (map lower (sorted_entries t))" "distinct (map lower (sorted_entries t))"
    by (rule sorted_entries_keys)+
  have "set (map lower (sorted_entries t)) = set (map lower (dedupe {} (entries_of t)))"
    by (simp add: sorted_entries_def)
  then show "set (map lower (sorted_entries t)) = set (map lower (entries_of t))"
    unfolding dedupe_keys by simp
next
  fix s assume "s \<in> set (sorted_entries t)"
  then have "s \<in> set (dedupe {} (entries_of t))" by (simp add: sorted_entries_def)
  then show "find (\<lambda>e. lower e = lower s) (entries_of t) = Some s"
    by (rule dedupe_first_seen)
next
  assume "read_text fs p = Inr t"
  then show "\<exists>pos. position fs p = Some pos
           \<and> sort_lycheeignore_file fs p =
               Inr (if t = out_text t then (fs, False)
                    else (fs\<lparr>nodes := (nodes fs)(pos \<mapsto> File (out_text t))\<rparr>, True))"
    by (rule sort_lycheeignore_file_read)
next
  assume "exists fs p = Inr False"
  then show "sort_lycheeignore_file fs p = Inr (fs, False)"
    by (simp add: sort_lycheeignore_file_def)
next
  assume "exists fs p = Inl e"
  then show "sort_lycheeignore_file fs p = Inl e"
    by (simp add: sort_lycheeignore_file_def)
qed

definition ignore_text :: string where
  "ignore_text = ''# hosts  '' @ [CHR 0x0A] @ ''b.org'' @ [CHR 0x0D, CHR 0x0A] @ '' A.org ''
                 @ [CHR 0x0A] @ ''  # more'' @ [CHR 0x0A, CHR 0x0A] @ ''a.org'' @ [CHR 0x0A] @ ''B.org''"

definition ignore_site :: "string \<Rightarrow> fsys" where
  "ignore_site bytes = \<lparr>cwd = [''repo''],
                         nodes = [[''repo''] \<mapsto> Dir, [''repo'', ''.lycheeignore''] \<mapsto> File bytes]\<rparr>"

theorem normalizer_output_witness:
  "read_text (ignore_site ignore_text) (Path ''.lycheeignore'')
     = Inr (''# hosts  '' @ [CHR 0x0A] @ ''b.org'' @ [CHR 0x0A] @ '' A.org ''
            @ [CHR 0x0A] @ ''  # more'' @ [CHR 0x0A, CHR 0x0A] @ ''a.org'' @ [CHR 0x0A] @ ''B.org'')
   \<and> out_text (''# hosts  '' @ [CHR 0x0A] @ ''b.org'' @ [CHR 0x0A] @ '' A.org ''
            @ [CHR 0x0A] @ ''  # more'' @ [CHR 0x0A, CHR 0x0A] @ ''a.org'' @ [CHR 0x0A] @ ''B.org'')
     = ''# hosts'' @ [CHR 0x0A] @ ''  # more'' @ [CHR 0x0A, CHR 0x0A] @ ''A.org'' @ [CHR 0x0A] @ ''b.org'' @ [CHR 0x0A]
   \<and> sorted_entries (''# hosts  '' @ [CHR 0x0A] @ ''b.org'' @ [CHR 0x0A] @ '' A.org ''
            @ [CHR 0x0A] @ ''  # more'' @ [CHR 0x0A, CHR 0x0A] @ ''a.org'' @ [CHR 0x0A] @ ''B.org'')
     = [''A.org'', ''b.org'']
   \<and> exists (ignore_site ignore_text) (Path ''lycheeignore'') = Inr False
   \<and> sort_lycheeignore_file (ignore_site ignore_text) (Path ''lycheeignore'')
     = Inr (ignore_site ignore_text, False)
   \<and> (\<exists>fs'. sort_lycheeignore_file (ignore_site ignore_text) (Path ''.lycheeignore'') = Inr (fs', True))"
proof -
  let ?t = "''# hosts  '' @ [CHR 0x0A] @ ''b.org'' @ [CHR 0x0A] @ '' A.org ''
            @ [CHR 0x0A] @ ''  # more'' @ [CHR 0x0A, CHR 0x0A] @ ''a.org'' @ [CHR 0x0A] @ ''B.org''"
  have r: "read_text (ignore_site ignore_text) (Path ''.lycheeignore'') = Inr ?t"
    by code_simp
  have o: "out_text ?t
     = ''# hosts'' @ [CHR 0x0A] @ ''  # more'' @ [CHR 0x0A, CHR 0x0A] @ ''A.org'' @ [CHR 0x0A] @ ''b.org'' @ [CHR 0x0A]"
    by code_simp
  have s: "sorted_entries ?t = [''A.org'', ''b.org'']"
    by code_simp
  have e: "exists (ignore_site ignore_text) (Path ''lycheeignore'') = Inr False"
    by code_simp
  have d: "?t \<noteq> out_text ?t"
    by code_simp
  note t = normalizer_output [where t = "?t" and fs = "ignore_site ignore_text" and p = "Path ''.lycheeignore''"]
  note u = normalizer_output [where t = "?t" and fs = "ignore_site ignore_text" and p = "Path ''lycheeignore''"]
  from u e have m: "sort_lycheeignore_file (ignore_site ignore_text) (Path ''lycheeignore'')
     = Inr (ignore_site ignore_text, False)"
    by blast
  from t r obtain pos where
    "sort_lycheeignore_file (ignore_site ignore_text) (Path ''.lycheeignore'') =
       Inr (if ?t = out_text ?t then (ignore_site ignore_text, False)
            else ((ignore_site ignore_text)\<lparr>nodes := (nodes (ignore_site ignore_text))(pos \<mapsto> File (out_text ?t))\<rparr>, True))"
    by blast
  with d have "\<exists>fs'. sort_lycheeignore_file (ignore_site ignore_text) (Path ''.lycheeignore'') = Inr (fs', True)"
    by simp
  with r o s e m show ?thesis by blast
qed

text \<open>
  C7. The output of the normalizer is a fixed point of it; on a file that reads as such an
  output it writes nothing and returns \<^verbatim>\<open>False\<close>, the file system being as before.
\<close>

theorem normalizer_is_idempotent:
  "out_text (out_text t) = out_text t
   \<and> (read_text fs p = Inr (out_text t) \<longrightarrow> sort_lycheeignore_file fs p = Inr (fs, False))"
proof (intro conjI impI)
  show i: "out_text (out_text t) = out_text t" by (rule out_text_idem)
  assume "read_text fs p = Inr (out_text t)"
  from sort_lycheeignore_file_read [OF this] show "sort_lycheeignore_file fs p = Inr (fs, False)"
    by (auto simp: i)
qed

theorem normalizer_is_idempotent_witness:
  "out_text (''# hosts'' @ [CHR 0x0A, CHR 0x0A] @ ''A.org'' @ [CHR 0x0A] @ ''b.org'' @ [CHR 0x0A])
     = ''# hosts'' @ [CHR 0x0A, CHR 0x0A] @ ''A.org'' @ [CHR 0x0A] @ ''b.org'' @ [CHR 0x0A]
   \<and> read_text (ignore_site (''# hosts'' @ [CHR 0x0A, CHR 0x0A] @ ''A.org'' @ [CHR 0x0A] @ ''b.org'' @ [CHR 0x0A]))
        (Path ''.lycheeignore'')
     = Inr (''# hosts'' @ [CHR 0x0A, CHR 0x0A] @ ''A.org'' @ [CHR 0x0A] @ ''b.org'' @ [CHR 0x0A])
   \<and> sort_lycheeignore_file
        (ignore_site (''# hosts'' @ [CHR 0x0A, CHR 0x0A] @ ''A.org'' @ [CHR 0x0A] @ ''b.org'' @ [CHR 0x0A]))
        (Path ''.lycheeignore'')
     = Inr (ignore_site (''# hosts'' @ [CHR 0x0A, CHR 0x0A] @ ''A.org'' @ [CHR 0x0A] @ ''b.org'' @ [CHR 0x0A]), False)"
proof -
  let ?n = "''# hosts'' @ [CHR 0x0A, CHR 0x0A] @ ''A.org'' @ [CHR 0x0A] @ ''b.org'' @ [CHR 0x0A]"
  have o: "out_text ?n = ?n" by code_simp
  have r: "read_text (ignore_site ?n) (Path ''.lycheeignore'') = Inr ?n" by code_simp
  note t = normalizer_is_idempotent [of ?n "ignore_site ?n" "Path ''.lycheeignore''"]
  from t r have "sort_lycheeignore_file (ignore_site ?n) (Path ''.lycheeignore'') = Inr (ignore_site ?n, False)"
    unfolding o by blast
  with o r show ?thesis by blast
qed

section \<open>Properties of \<^verbatim>\<open>strip_chatgpt_utm\<close>\<close>

subsection \<open>Decoding with replacement\<close>

lemma decode_replace_replacement: "decode_replace (replacement @ r) = replacement @ decode_replace r"
  by (simp add: replacement_def second_ok_def cont_def)

lemma decode_replace_replacement_Nil: "decode_replace replacement = replacement"
  using decode_replace_replacement [of "[]"] by simp

lemma decode_replace_idem: "decode_replace (decode_replace s) = decode_replace s"
proof (induction s rule: decode_replace.induct)
  case 1
  then show ?case by simp
next
  case (2 a r)
  define m where "m = (of_char a :: nat)"
  consider (ascii) "m < 128"
    | (two) "\<not> m < 128" "194 \<le> m \<and> m < 224"
    | (three) "\<not> m < 128" "\<not> (194 \<le> m \<and> m < 224)" "224 \<le> m \<and> m < 240"
    | (four) "\<not> m < 128" "\<not> (194 \<le> m \<and> m < 224)" "\<not> (224 \<le> m \<and> m < 240)" "240 \<le> m \<and> m < 245"
    | (bad) "\<not> m < 128" "\<not> (194 \<le> m \<and> m < 224)" "\<not> (224 \<le> m \<and> m < 240)" "\<not> (240 \<le> m \<and> m < 245)"
    by blast
  then show ?case
  proof cases
    case ascii
    with 2(1) [OF m_def] show ?thesis
      by (simp add: m_def [symmetric])
  next
    case two
    show ?thesis
    proof (cases r)
      case Nil
      with two show ?thesis
        by (simp add: m_def [symmetric] decode_replace_replacement_Nil)
    next
      case (Cons b r1)
      show ?thesis
      proof (cases "cont b")
        case True
        with two Cons 2(2) [OF m_def two Cons True] show ?thesis
          by (simp add: m_def [symmetric])
      next
        case False
        with two Cons 2(3) [OF m_def two Cons False] show ?thesis
          by (simp add: m_def [symmetric] decode_replace_replacement)
      qed
    qed
  next
    case three
    show ?thesis
    proof (cases r)
      case Nil
      with three show ?thesis
        by (simp add: m_def [symmetric] decode_replace_replacement_Nil)
    next
      case b: (Cons b r1)
      show ?thesis
      proof (cases "second_ok a b")
        case False
        with three b 2(6) [OF m_def three b False] show ?thesis
          by (simp add: m_def [symmetric] decode_replace_replacement)
      next
        case ok: True
        show ?thesis
        proof (cases r1)
          case Nil
          with three b ok show ?thesis
            by (simp add: m_def [symmetric] decode_replace_replacement_Nil)
        next
          case c: (Cons c r2)
          show ?thesis
          proof (cases "cont c")
            case True
            with three b ok c 2(4) [OF m_def three b ok c True] show ?thesis
              by (simp add: m_def [symmetric])
          next
            case False
            with three b ok c 2(5) [OF m_def three b ok c False] show ?thesis
              by (simp add: m_def [symmetric] decode_replace_replacement)
          qed
        qed
      qed
    qed
  next
    case four
    show ?thesis
    proof (cases r)
      case Nil
      with four show ?thesis
        by (simp add: m_def [symmetric] decode_replace_replacement_Nil)
    next
      case b: (Cons b r1)
      show ?thesis
      proof (cases "second_ok a b")
        case False
        with four b 2(10) [OF m_def four b False] show ?thesis
          by (simp add: m_def [symmetric] decode_replace_replacement)
      next
        case ok: True
        show ?thesis
        proof (cases r1)
          case Nil
          with four b ok show ?thesis
            by (simp add: m_def [symmetric] decode_replace_replacement_Nil)
        next
          case c: (Cons c r2)
          show ?thesis
          proof (cases "cont c")
            case False
            with four b ok c 2(9) [OF m_def four b ok c False] show ?thesis
              by (simp add: m_def [symmetric] decode_replace_replacement)
          next
            case cc: True
            show ?thesis
            proof (cases r2)
              case Nil
              with four b ok c cc show ?thesis
                by (simp add: m_def [symmetric] decode_replace_replacement_Nil)
            next
              case d: (Cons d r3)
              show ?thesis
              proof (cases "cont d")
                case True
                with four b ok c cc d 2(7) [OF m_def four b ok c cc d True] show ?thesis
                  by (simp add: m_def [symmetric])
              next
                case False
                with four b ok c cc d 2(8) [OF m_def four b ok c cc d False] show ?thesis
                  by (simp add: m_def [symmetric] decode_replace_replacement)
              qed
            qed
          qed
        qed
      qed
    qed
  next
    case bad
    then have "decode_replace (a # r) = replacement @ decode_replace r"
      by (auto simp: m_def [symmetric])
    with 2(11) [OF m_def bad] show ?thesis
      by (simp only: decode_replace_replacement)
  qed
qed

subsection \<open>Quoting and unquoting\<close>

lemma of_char_less_256: "(of_char c :: nat) < 256"
proof -
  have "(of_char (char_of (of_char c :: nat)) :: nat) = of_char c mod 256"
    by (simp only: of_char_of)
  then have "(of_char c :: nat) = of_char c mod 256" by simp
  then show ?thesis
    by (metis mod_less_divisor zero_less_numeral)
qed

lemma hexval_hexdigit: "d < 16 \<Longrightarrow> hexval (hexdigit d) = Some d"
proof (cases "d < 10")
  case True
  then show ?thesis by (simp add: hexval_def hexdigit_def)
next
  case False
  assume "d < 16"
  with False show ?thesis by (simp add: hexval_def hexdigit_def)
qed

lemma hexdigit_code:
  "d < 16 \<Longrightarrow> (48 \<le> (of_char (hexdigit d) :: nat) \<and> (of_char (hexdigit d) :: nat) \<le> 57)
              \<or> (65 \<le> (of_char (hexdigit d) :: nat) \<and> (of_char (hexdigit d) :: nat) \<le> 70)"
  by (simp add: hexdigit_def)

lemma hexdigit_plain:
  "d < 16 \<Longrightarrow> hexdigit d \<noteq> CHR ''+'' \<and> hexdigit d \<noteq> CHR ''&'' \<and> hexdigit d \<noteq> CHR ''=''
              \<and> hexdigit d \<noteq> CHR ''#'' \<and> hexdigit d \<noteq> CHR ''?'' \<and> hexdigit d \<noteq> CHR '' ''
              \<and> hexdigit d \<noteq> CHR ''%''"
  using hexdigit_code [of d] by auto

lemma nibbles: "(of_char c :: nat) div 16 < 16" "(of_char c :: nat) mod 16 < 16"
proof -
  have "(of_char c :: nat) < 16 * 16" using of_char_less_256 [of c] by simp
  then show "(of_char c :: nat) div 16 < 16" by (rule less_mult_imp_div_less)
  show "(of_char c :: nat) mod 16 < 16" by simp
qed

lemma always_safe_plain:
  "always_safe c \<Longrightarrow> c \<noteq> CHR ''+'' \<and> c \<noteq> CHR ''&'' \<and> c \<noteq> CHR ''='' \<and> c \<noteq> CHR ''#''
                    \<and> c \<noteq> CHR ''?'' \<and> c \<noteq> CHR '' '' \<and> c \<noteq> CHR ''%''"
  by (auto simp: always_safe_def ascii_alpha_def ascii_digit_def)

definition quote_plus_byte :: "char \<Rightarrow> string" where
  "quote_plus_byte c = (if c = CHR '' '' then ''+'' else quote_byte [] c)"

lemma quote_byte_space: "c \<noteq> CHR '' '' \<Longrightarrow> quote_byte '' '' c = quote_byte [] c"
  by (simp add: quote_byte_def)

lemma quote_byte_no_space: "c \<noteq> CHR '' '' \<Longrightarrow> CHR '' '' \<notin> set (quote_byte [] c)"
  using hexdigit_plain [OF nibbles(1) [of c]] hexdigit_plain [OF nibbles(2) [of c]]
  by (auto simp: quote_byte_def)

lemma map_no_space:
  "CHR '' '' \<notin> set s \<Longrightarrow> map (\<lambda>c. if c = CHR '' '' then CHR ''+'' else c) s = s"
  by (induction s) auto

lemma quote_plus_bytes: "quote_plus s = concat (map quote_plus_byte s)"
proof (cases "CHR '' '' \<in> set s")
  case False
  then have eq: "map quote_plus_byte s = map (quote_byte []) s"
    by (intro map_cong) (auto simp: quote_plus_byte_def)
  from False show ?thesis unfolding eq by (simp add: quote_plus_def quote_def)
next
  case True
  have "map (\<lambda>c. if c = CHR '' '' then CHR ''+'' else c) (quote_byte '' '' c) = quote_plus_byte c" for c
  proof (cases "c = CHR '' ''")
    case True
    then show ?thesis by (simp add: quote_plus_byte_def quote_byte_def)
  next
    case False
    then show ?thesis
      using quote_byte_no_space [OF False]
      by (simp add: quote_plus_byte_def quote_byte_space map_no_space)
  qed
  then have "map (\<lambda>c. if c = CHR '' '' then CHR ''+'' else c) (concat (map (quote_byte '' '') s))
             = concat (map quote_plus_byte s)"
    by (induction s) simp_all
  with True show ?thesis by (simp add: quote_plus_def quote_def)
qed

lemma quote_plus_byte_plain:
  "x \<in> set (quote_plus_byte c) \<Longrightarrow> x \<noteq> CHR ''&'' \<and> x \<noteq> CHR ''='' \<and> x \<noteq> CHR ''#'' \<and> x \<noteq> CHR ''?''"
  using hexdigit_plain [OF nibbles(1) [of c]] hexdigit_plain [OF nibbles(2) [of c]]
    always_safe_plain [of c]
  by (auto simp: quote_plus_byte_def quote_byte_def split: if_splits)

lemma quote_plus_plain:
  "x \<in> set (quote_plus s) \<Longrightarrow> x \<noteq> CHR ''&'' \<and> x \<noteq> CHR ''='' \<and> x \<noteq> CHR ''#'' \<and> x \<noteq> CHR ''?''"
  unfolding quote_plus_bytes using quote_plus_byte_plain by auto

lemma unquote_quote_byte:
  "unquote_to_bytes (map (\<lambda>c. if c = CHR ''+'' then CHR '' '' else c) (quote_plus_byte c) @ r)
   = c # unquote_to_bytes r"
proof (cases "c = CHR '' ''")
  case True
  then show ?thesis by (simp add: quote_plus_byte_def)
next
  case False
  show ?thesis
  proof (cases "always_safe c")
    case True
    with False always_safe_plain [OF True] show ?thesis
      by (simp add: quote_plus_byte_def quote_byte_def)
  next
    case unsafe: False
    let ?h = "hexdigit (of_char c div 16)" and ?l = "hexdigit (of_char c mod 16)"
    note d = nibbles [of c]
    have q: "quote_plus_byte c = [CHR ''%'', ?h, ?l]"
      using False unsafe by (simp add: quote_plus_byte_def quote_byte_def)
    have p: "?h \<noteq> CHR ''+''" "?l \<noteq> CHR ''+''"
      using hexdigit_plain [OF d(1)] hexdigit_plain [OF d(2)] by simp_all
    have "char_of (16 * ((of_char c :: nat) div 16) + (of_char c :: nat) mod 16) = c"
      by simp
    with p show ?thesis
      unfolding q by (simp add: hexval_hexdigit [OF d(1)] hexval_hexdigit [OF d(2)])
  qed
qed

lemma unquote_to_bytes_quote_plus:
  "unquote_to_bytes (map (\<lambda>c. if c = CHR ''+'' then CHR '' '' else c) (quote_plus s)) = s"
  unfolding quote_plus_bytes
proof (induction s)
  case Nil
  then show ?case by simp
next
  case (Cons c s)
  have "unquote_to_bytes (map (\<lambda>c. if c = CHR ''+'' then CHR '' '' else c) (quote_plus_byte c)
          @ map (\<lambda>c. if c = CHR ''+'' then CHR '' '' else c) (concat (map quote_plus_byte s)))
        = c # unquote_to_bytes (map (\<lambda>c. if c = CHR ''+'' then CHR '' '' else c) (concat (map quote_plus_byte s)))"
    by (rule unquote_quote_byte)
  with Cons show ?case by simp
qed

lemma unquote_plus_quote_plus: "unquote_plus (quote_plus s) = decode_replace s"
  by (simp add: unquote_plus_def unquote_def unquote_to_bytes_quote_plus)

lemma unquote_plus_clean: "decode_replace (unquote_plus s) = unquote_plus s"
  by (simp add: unquote_plus_def unquote_def decode_replace_idem)

subsection \<open>Queries\<close>

lemma split_join_sep:
  "\<forall>x \<in> set (n # ns). c \<notin> set x \<Longrightarrow> split c (join [c] (n # ns)) = n # ns"
proof (induction ns arbitrary: n)
  case Nil
  then show ?case by (simp add: split_plain)
next
  case (Cons m ms)
  from Cons.prems have n: "c \<notin> set n" and r: "\<forall>x \<in> set (m # ms). c \<notin> set x" by simp_all
  have "join [c] (n # m # ms) = n @ c # join [c] (m # ms)" by simp
  with split_at_sep [OF n] Cons.IH [OF r] show ?case by simp
qed

definition clean_pair :: "string \<times> string \<Rightarrow> bool" where
  "clean_pair kv = (decode_replace (fst kv) = fst kv \<and> decode_replace (snd kv) = snd kv)"

lemma parse_qsl_clean: "kv \<in> set (parse_qsl qs) \<Longrightarrow> clean_pair kv"
  by (auto simp: parse_qsl_def clean_pair_def unquote_plus_clean split: if_splits)

lemma partition_head_append: "c \<notin> set a \<Longrightarrow> partition_head c (a @ c # b) = a"
  by (induction a) (auto simp: partition_head_def)

lemma partition_tail_append: "c \<notin> set a \<Longrightarrow> partition_tail c (a @ c # b) = b"
  by (induction a) (auto simp: partition_tail_def)

lemma partition_head_none: "c \<notin> set a \<Longrightarrow> partition_head c a = a"
  by (induction a) (auto simp: partition_head_def)

lemma partition_tail_none: "c \<notin> set a \<Longrightarrow> partition_tail c a = []"
  by (induction a) (auto simp: partition_tail_def)

definition field :: "string \<times> string \<Rightarrow> string" where
  "field kv = quote_plus (fst kv) @ ''='' @ quote_plus (snd kv)"

lemma urlencode_fields: "urlencode q = join ''&'' (map field q)"
proof -
  have "(\<lambda>(k, v). quote_plus k @ ''='' @ quote_plus v) = field"
    by (auto simp: fun_eq_iff field_def)
  then show ?thesis by (simp add: urlencode_def)
qed

lemma field_no_amp: "CHR ''&'' \<notin> set (field kv)"
  using quote_plus_plain by (auto simp: field_def)

lemma field_not_Nil: "field kv \<noteq> []"
  by (simp add: field_def)

lemma field_parts:
  "partition_head CHR ''='' (field kv) = quote_plus (fst kv)"
  "partition_tail CHR ''='' (field kv) = quote_plus (snd kv)"
proof -
  have n: "CHR ''='' \<notin> set (quote_plus (fst kv))" using quote_plus_plain by blast
  have f: "field kv = quote_plus (fst kv) @ CHR ''='' # quote_plus (snd kv)"
    by (simp add: field_def)
  show "partition_head CHR ''='' (field kv) = quote_plus (fst kv)"
    unfolding f by (rule partition_head_append [OF n])
  show "partition_tail CHR ''='' (field kv) = quote_plus (snd kv)"
    unfolding f by (rule partition_tail_append [OF n])
qed

lemma join_not_Nil: "x \<noteq> [] \<Longrightarrow> join sep (x # xs) \<noteq> []"
  by (cases xs) auto

lemma parse_qsl_urlencode:
  assumes "\<forall>kv \<in> set q. clean_pair kv"
  shows "parse_qsl (urlencode q) = q"
proof (cases q)
  case Nil
  then show ?thesis by (simp add: urlencode_def parse_qsl_def)
next
  case (Cons kv r)
  have ne: "urlencode q \<noteq> []"
    unfolding urlencode_fields Cons using field_not_Nil by (simp add: join_not_Nil)
  have "split CHR ''&'' (join ''&'' (map field (kv # r))) = map field (kv # r)"
    using split_join_sep [of "field kv" "map field r" "CHR ''&''"] field_no_amp by auto
  then have s: "split CHR ''&'' (urlencode q) = map field q"
    by (simp add: urlencode_fields Cons)
  have f: "filter (\<lambda>nv. nv \<noteq> []) (map field q) = map field q"
    using field_not_Nil by (simp add: filter_id_conv)
  have "(unquote_plus (partition_head CHR ''='' (field x)), unquote_plus (partition_tail CHR ''='' (field x))) = x"
    if "x \<in> set q" for x
  proof -
    from that assms have "clean_pair x" by blast
    then show ?thesis
      by (simp add: field_parts unquote_plus_quote_plus clean_pair_def)
  qed
  then have "map (\<lambda>nv. (unquote_plus (partition_head CHR ''='' nv), unquote_plus (partition_tail CHR ''='' nv)))
               (map field q) = q"
    by (simp add: map_idI)
  with ne s f show ?thesis by (simp add: parse_qsl_def)
qed

lemma urlencode_plain: "x \<in> set (urlencode q) \<Longrightarrow> x \<noteq> CHR ''#'' \<and> x \<noteq> CHR ''?''"
proof (induction q arbitrary: x rule: induct_list012)
  case 1
  then show ?case by (simp add: urlencode_def)
next
  case (2 kv)
  then show ?case using quote_plus_plain by (auto simp: urlencode_fields field_def)
next
  case (3 kv kv' r)
  from 3(3) have "x \<in> set (field kv) \<or> x = CHR ''&'' \<or> x \<in> set (urlencode (kv' # r))"
    by (auto simp: urlencode_fields)
  then show ?case
    using 3(2) quote_plus_plain by (auto simp: field_def)
qed

subsection \<open>Putting a URL together again\<close>

definition unsplit_base :: "split_result \<Rightarrow> string" where
  \<comment> \<open>what \<^verbatim>\<open>urlunsplit\<close> has built before it appends the query and the fragment\<close>
  "unsplit_base p =
     (let url = path p;
          url = (if netloc p \<noteq> [] \<or> (scheme p \<noteq> [] \<and> scheme p \<in> set uses_netloc)
                    \<or> startswith url ''//''
                 then ''//'' @ netloc p @ (if url \<noteq> [] \<and> \<not> startswith url ''/'' then ''/'' @ url else url)
                 else url)
      in if scheme p \<noteq> [] then scheme p @ '':'' @ url else url)"

definition query_text :: "string \<Rightarrow> string" where
  \<comment> \<open>the text between the first \<^verbatim>\<open>?\<close> and the first \<^verbatim>\<open>#\<close> that follows no earlier \<^verbatim>\<open>#\<close>\<close>
  "query_text u = partition_tail CHR ''?'' (partition_head CHR ''#'' u)"

definition fragment_text :: "string \<Rightarrow> string" where
  \<comment> \<open>the text after the first \<^verbatim>\<open>#\<close>\<close>
  "fragment_text u = partition_tail CHR ''#'' u"

definition delimiter_free :: "string \<Rightarrow> bool" where
  "delimiter_free s = (CHR ''?'' \<notin> set s \<and> CHR ''#'' \<notin> set s)"

lemma urlunsplit_parts:
  "urlunsplit p = unsplit_base p @ (if query p = [] then [] else CHR ''?'' # query p)
                                 @ (if fragment p = [] then [] else CHR ''#'' # fragment p)"
  by (simp add: urlunsplit_def unsplit_base_def Let_def)

lemma delimiter_free_append [simp]:
  "delimiter_free (a @ b) = (delimiter_free a \<and> delimiter_free b)"
  by (auto simp: delimiter_free_def)

lemma delimiter_free_Cons [simp]:
  "delimiter_free (c # s) = (c \<noteq> CHR ''?'' \<and> c \<noteq> CHR ''#'' \<and> delimiter_free s)"
  by (auto simp: delimiter_free_def)

lemma delimiter_free_Nil [simp]: "delimiter_free []"
  by (simp add: delimiter_free_def)

lemma unsplit_base_delimiter_free:
  assumes s: "delimiter_free (scheme p)" and n: "delimiter_free (netloc p)" and h: "delimiter_free (path p)"
  shows "delimiter_free (unsplit_base p)"
proof -
  define u where "u = (if path p \<noteq> [] \<and> \<not> startswith (path p) ''/'' then ''/'' @ path p else path p)"
  define v where "v = (if netloc p \<noteq> [] \<or> (scheme p \<noteq> [] \<and> scheme p \<in> set uses_netloc)
                             \<or> startswith (path p) ''//''
                       then ''//'' @ netloc p @ u else path p)"
  have b: "unsplit_base p = (if scheme p \<noteq> [] then scheme p @ '':'' @ v else v)"
    unfolding unsplit_base_def Let_def v_def u_def ..
  from h have du: "delimiter_free u" unfolding u_def by simp
  have dv: "delimiter_free v"
  proof (cases "netloc p \<noteq> [] \<or> (scheme p \<noteq> [] \<and> scheme p \<in> set uses_netloc)
                  \<or> startswith (path p) ''//''")
    case True
    then have "v = ''//'' @ netloc p @ u" unfolding v_def by (rule if_P)
    with n du show ?thesis by simp
  next
    case False
    then have "v = path p" unfolding v_def by (rule if_not_P)
    with h show ?thesis by simp
  qed
  show ?thesis
  proof (cases "scheme p \<noteq> []")
    case True
    then have "unsplit_base p = scheme p @ '':'' @ v" unfolding b by (rule if_P)
    with s dv show ?thesis by simp
  next
    case False
    then have "unsplit_base p = v" unfolding b by (rule if_not_P)
    with dv show ?thesis by simp
  qed
qed

lemma unsplit_base_query [simp]: "unsplit_base (p\<lparr>query := q\<rparr>) = unsplit_base p"
  by (simp add: unsplit_base_def Let_def)

lemma lower_char_delimiter:
  assumes "scheme_char c"
  shows "lower_char c \<noteq> CHR ''?'' \<and> lower_char c \<noteq> CHR ''#''"
proof (cases "65 \<le> (of_char c :: nat) \<and> (of_char c :: nat) \<le> 90")
  case True
  then have l: "lower_char c = char_of ((of_char c :: nat) + 32)"
    by (simp add: lower_char_def)
  from True have "(of_char (lower_char c) :: nat) = of_char c + 32"
    unfolding l by (simp add: of_char_of)
  with True have g: "97 \<le> (of_char (lower_char c) :: nat)" by simp
  have "lower_char c \<noteq> CHR ''?''"
  proof
    assume "lower_char c = CHR ''?''"
    with g show False by simp
  qed
  moreover have "lower_char c \<noteq> CHR ''#''"
  proof
    assume "lower_char c = CHR ''#''"
    with g show False by simp
  qed
  ultimately show ?thesis by simp
next
  case False
  then have e: "lower_char c = c" unfolding lower_char_def Let_def by (rule if_not_P)
  have "c \<noteq> CHR ''?''"
  proof
    assume "c = CHR ''?''"
    with assms show False by (simp add: scheme_char_def ascii_alpha_def ascii_digit_def)
  qed
  moreover have "c \<noteq> CHR ''#''"
  proof
    assume "c = CHR ''#''"
    with assms show False by (simp add: scheme_char_def ascii_alpha_def ascii_digit_def)
  qed
  ultimately show ?thesis unfolding e by simp
qed

lemma map_misses: "\<forall>c \<in> set xs. f c \<noteq> y \<Longrightarrow> y \<notin> set (map f xs)"
  by (induction xs) auto

lemma split_scheme_delimiter_free: "delimiter_free (fst (split_scheme u))"
proof (cases "CHR '':'' \<in> set u \<and> partition_head CHR '':'' u \<noteq> []
              \<and> ascii_alpha (hd (partition_head CHR '':'' u))
              \<and> list_all scheme_char (partition_head CHR '':'' u)")
  case True
  then have "split_scheme u = (lower (partition_head CHR '':'' u), partition_tail CHR '':'' u)"
    unfolding split_scheme_def Let_def by (rule if_P)
  then have s: "fst (split_scheme u) = lower (partition_head CHR '':'' u)"
    by simp
  from True have "\<forall>c \<in> set (partition_head CHR '':'' u). scheme_char c"
    by (simp add: list_all_iff)
  then have a: "\<forall>c \<in> set (partition_head CHR '':'' u). lower_char c \<noteq> CHR ''?''"
    and b: "\<forall>c \<in> set (partition_head CHR '':'' u). lower_char c \<noteq> CHR ''#''"
    using lower_char_delimiter by blast+
  show ?thesis
    unfolding s delimiter_free_def lower_def
    using map_misses [OF a] map_misses [OF b] by (rule conjI)
next
  case False
  then have "split_scheme u = ([], u)"
    unfolding split_scheme_def Let_def by (rule if_not_P)
  then show ?thesis by (simp add: delimiter_free_def)
qed

lemma splitnetloc_delimiter_free: "delimiter_free (fst (splitnetloc u))"
proof (cases "startswith u ''//''")
  case True
  then have s: "fst (splitnetloc u) = takeWhile (\<lambda>c. \<not> netloc_delim c) (drop 2 u)"
    by (simp add: splitnetloc_def)
  have d: "\<not> netloc_delim c" if "c \<in> set (takeWhile (\<lambda>c. \<not> netloc_delim c) (drop 2 u))" for c
    using that by (rule set_takeWhileD [THEN conjunct2])
  have "netloc_delim CHR ''?''" "netloc_delim CHR ''#''" by (simp_all add: netloc_delim_def)
  with d show ?thesis unfolding s delimiter_free_def by blast
next
  case False
  then show ?thesis by (simp add: splitnetloc_def delimiter_free_def)
qed

lemma partition_head_misses: "c \<notin> set (partition_head c s)"
  unfolding partition_head_def using set_takeWhileD [of c "\<lambda>x. x \<noteq> c" s] by blast

lemma partition_head_subset: "set (partition_head c s) \<subseteq> set s"
  unfolding partition_head_def using set_takeWhileD [of _ "\<lambda>x. x \<noteq> c" s] by blast

lemma path_delimiter_free:
  "delimiter_free (partition_head CHR ''?'' (partition_head CHR ''#'' u))"
  unfolding delimiter_free_def
  using partition_head_misses [of "CHR ''?''" "partition_head CHR ''#'' u"]
    partition_head_misses [of "CHR ''#''" u]
    partition_head_subset [of "CHR ''?''" "partition_head CHR ''#'' u"]
  by blast

lemma urlsplit_delimiter_free:
  assumes "urlsplit L url = Inr p"
  shows "delimiter_free (scheme p)" and "delimiter_free (netloc p)" and "delimiter_free (path p)"
proof -
  define url1 where "url1 = filter (\<lambda>c. \<not> unsafe_url_byte c) (dropWhile c0_control_or_space url)"
  define url2 where "url2 = snd (split_scheme url1)"
  define url3 where "url3 = snd (splitnetloc url2)"
  have "urlsplit L url =
          (if netloc_error L (fst (splitnetloc url2)) then Inl ValueError
           else Inr \<lparr>scheme = fst (split_scheme url1), netloc = fst (splitnetloc url2),
                     path = partition_head CHR ''?'' (partition_head CHR ''#'' url3),
                     query = partition_tail CHR ''?'' (partition_head CHR ''#'' url3),
                     fragment = partition_tail CHR ''#'' url3\<rparr>)"
    unfolding urlsplit_def Let_def url1_def url2_def url3_def case_prod_beta ..
  with assms have p: "p = \<lparr>scheme = fst (split_scheme url1), netloc = fst (splitnetloc url2),
                          path = partition_head CHR ''?'' (partition_head CHR ''#'' url3),
                          query = partition_tail CHR ''?'' (partition_head CHR ''#'' url3),
                          fragment = partition_tail CHR ''#'' url3\<rparr>"
    by (simp split: if_splits)
  show "delimiter_free (scheme p)" unfolding p by (simp add: split_scheme_delimiter_free)
  show "delimiter_free (netloc p)" unfolding p by (simp add: splitnetloc_delimiter_free)
  show "delimiter_free (path p)" unfolding p by (simp add: path_delimiter_free)
qed

lemma fragment_text_parts:
  assumes "delimiter_free b" and "CHR ''#'' \<notin> set q"
  shows "fragment_text (b @ (if q = [] then [] else CHR ''?'' # q) @ (if f = [] then [] else CHR ''#'' # f)) = f"
proof -
  let ?m = "b @ (if q = [] then [] else CHR ''?'' # q)"
  from assms have m: "CHR ''#'' \<notin> set ?m" by (simp add: delimiter_free_def)
  show ?thesis
  proof (cases "f = []")
    case True
    with partition_tail_none [OF m] show ?thesis by (simp add: fragment_text_def)
  next
    case False
    with partition_tail_append [OF m, of f] show ?thesis by (simp add: fragment_text_def)
  qed
qed

lemma query_text_parts:
  assumes "delimiter_free b" and "CHR ''#'' \<notin> set q"
  shows "query_text (b @ (if q = [] then [] else CHR ''?'' # q) @ (if f = [] then [] else CHR ''#'' # f)) = q"
proof -
  let ?m = "b @ (if q = [] then [] else CHR ''?'' # q)"
  from assms have m: "CHR ''#'' \<notin> set ?m" by (simp add: delimiter_free_def)
  from assms have b: "CHR ''?'' \<notin> set b" by (simp add: delimiter_free_def)
  have h: "partition_head CHR ''#'' (?m @ (if f = [] then [] else CHR ''#'' # f)) = ?m"
  proof (cases "f = []")
    case True
    with partition_head_none [OF m] show ?thesis by simp
  next
    case False
    with partition_head_append [OF m, of f] show ?thesis by simp
  qed
  have t: "partition_tail CHR ''?'' ?m = q"
  proof (cases "q = []")
    case True
    with partition_tail_none [OF b] show ?thesis by simp
  next
    case False
    with partition_tail_append [OF b, of q] show ?thesis by simp
  qed
  from h t show ?thesis by (simp add: query_text_def)
qed

lemma field_in_query:
  assumes "''utm_source=chatgpt.com'' \<in> set (split CHR ''&'' qs)"
  shows "(''utm_source'', ''chatgpt.com'') \<in> set (parse_qsl qs)"
proof -
  have ne: "qs \<noteq> []" using assms by auto
  have k: "unquote_plus (partition_head CHR ''='' ''utm_source=chatgpt.com'') = ''utm_source''"
    by code_simp
  have v: "unquote_plus (partition_tail CHR ''='' ''utm_source=chatgpt.com'') = ''chatgpt.com''"
    by code_simp
  let ?f = "\<lambda>nv. (unquote_plus (partition_head CHR ''='' nv), unquote_plus (partition_tail CHR ''='' nv))"
  from assms have "''utm_source=chatgpt.com'' \<in> set (filter (\<lambda>nv. nv \<noteq> []) (split CHR ''&'' qs))"
    by simp
  then have "?f ''utm_source=chatgpt.com'' \<in> ?f ` set (filter (\<lambda>nv. nv \<noteq> []) (split CHR ''&'' qs))"
    by (rule imageI)
  with ne show ?thesis by (simp add: parse_qsl_def k v)
qed

lemma strip_chatgpt_utm_result:
  assumes "contains url ''utm_source=chatgpt.com''" and "urlsplit L url = Inr p"
  shows "strip_chatgpt_utm L url
         = Inr (urlunsplit (p\<lparr>query := urlencode
             (filter (\<lambda>(k, v). \<not> (k = ''utm_source'' \<and> v = ''chatgpt.com'')) (parse_qsl (query p)))\<rparr>))"
  using assms by (simp add: strip_chatgpt_utm_def Let_def)

text \<open>
  C1, as the code has it. The claim says that every other query parameter is preserved
  unchanged. The query is parsed and written again, so a parameter keeps its name and its
  value but not its spelling: \<^verbatim>\<open>q=a/b\<close> comes back as \<^verbatim>\<open>q=a%2Fb\<close>.
\<close>

theorem other_parameter_is_respelled:
  "strip_chatgpt_utm lenient ''http://x/?q=a/b&utm_source=chatgpt.com'' = Inr ''http://x/?q=a%2Fb''
   \<and> \<not> contains ''http://x/?q=a%2Fb'' ''q=a/b''"
  by code_simp

text \<open>
  C1, amended. Let a destination contain \<^verbatim>\<open>utm_source=chatgpt.com\<close> and let \<^verbatim>\<open>urlsplit\<close>
  accept it. Then \<^verbatim>\<open>strip_chatgpt_utm\<close> returns a destination whose query, parsed, is the
  list of the parameters of the given query without the pairs of name \<^verbatim>\<open>utm_source\<close> and
  value \<^verbatim>\<open>chatgpt.com\<close>: the other parameters keep their names, their values and their order.
  That pair is no parameter of the result, no field of the result's query is the text
  \<^verbatim>\<open>utm_source=chatgpt.com\<close>, and the fragment is the given one. The query of the result
  is the text between its first \<^verbatim>\<open>?\<close> and its first \<^verbatim>\<open>#\<close>, the fragment the text after
  its first \<^verbatim>\<open>#\<close>. In particular \<^verbatim>\<open>http://x/?a=1&utm_source=chatgpt.com&b=2\<close> becomes
  \<^verbatim>\<open>http://x/?a=1&b=2\<close>.
\<close>

theorem utm_parameter_removed:
  assumes "contains url ''utm_source=chatgpt.com''" and "urlsplit L url = Inr p"
  shows "\<exists>out. strip_chatgpt_utm L url = Inr out
           \<and> parse_qsl (query_text out)
               = filter (\<lambda>(k, v). \<not> (k = ''utm_source'' \<and> v = ''chatgpt.com'')) (parse_qsl (query p))
           \<and> (''utm_source'', ''chatgpt.com'') \<notin> set (parse_qsl (query_text out))
           \<and> ''utm_source=chatgpt.com'' \<notin> set (split CHR ''&'' (query_text out))
           \<and> fragment_text out = fragment p
           \<and> strip_chatgpt_utm lenient ''http://x/?a=1&utm_source=chatgpt.com&b=2''
               = Inr ''http://x/?a=1&b=2''"
proof -
  define kept where
    "kept = filter (\<lambda>(k, v). \<not> (k = ''utm_source'' \<and> v = ''chatgpt.com'')) (parse_qsl (query p))"
  define q where "q = urlencode kept"
  define out where "out = urlunsplit (p\<lparr>query := q\<rparr>)"
  have r: "strip_chatgpt_utm L url = Inr out"
    unfolding out_def q_def kept_def by (rule strip_chatgpt_utm_result [OF assms])
  have b: "delimiter_free (unsplit_base p)"
    using urlsplit_delimiter_free [OF assms(2)] by (rule unsplit_base_delimiter_free)
  have h: "CHR ''#'' \<notin> set q"
    unfolding q_def using urlencode_plain [of "CHR ''#''" kept] by blast
  have o: "out = unsplit_base p @ (if q = [] then [] else CHR ''?'' # q)
                               @ (if fragment p = [] then [] else CHR ''#'' # fragment p)"
    unfolding out_def by (simp add: urlunsplit_parts)
  have qt: "query_text out = q" unfolding o by (rule query_text_parts [OF b h])
  have ft: "fragment_text out = fragment p" unfolding o by (rule fragment_text_parts [OF b h])
  have "\<forall>kv \<in> set kept. clean_pair kv"
    unfolding kept_def using parse_qsl_clean by auto
  then have pq: "parse_qsl q = kept" unfolding q_def by (rule parse_qsl_urlencode)
  have n: "(''utm_source'', ''chatgpt.com'') \<notin> set kept" by (simp add: kept_def)
  with pq field_in_query [of q] have f: "''utm_source=chatgpt.com'' \<notin> set (split CHR ''&'' q)"
    by auto
  have 1: "parse_qsl (query_text out) = kept" unfolding qt by (rule pq)
  have 2: "(''utm_source'', ''chatgpt.com'') \<notin> set (parse_qsl (query_text out))"
    unfolding 1 by (rule n)
  have 3: "''utm_source=chatgpt.com'' \<notin> set (split CHR ''&'' (query_text out))"
    unfolding qt by (rule f)
  have 4: "strip_chatgpt_utm lenient ''http://x/?a=1&utm_source=chatgpt.com&b=2''
               = Inr ''http://x/?a=1&b=2''"
    by code_simp
  from r 1 2 3 ft 4 show ?thesis unfolding kept_def by blast
qed

theorem utm_parameter_removed_witness:
  "contains ''http://x/?a=1&utm_source=chatgpt.com&b=2#top'' ''utm_source=chatgpt.com''
   \<and> urlsplit lenient ''http://x/?a=1&utm_source=chatgpt.com&b=2#top''
       = Inr \<lparr>scheme = ''http'', netloc = ''x'', path = ''/'',
              query = ''a=1&utm_source=chatgpt.com&b=2'', fragment = ''top''\<rparr>
   \<and> (\<exists>out. strip_chatgpt_utm lenient ''http://x/?a=1&utm_source=chatgpt.com&b=2#top'' = Inr out
          \<and> parse_qsl (query_text out) = [(''a'', ''1''), (''b'', ''2'')]
          \<and> (''utm_source'', ''chatgpt.com'') \<notin> set (parse_qsl (query_text out))
          \<and> ''utm_source=chatgpt.com'' \<notin> set (split CHR ''&'' (query_text out))
          \<and> fragment_text out = ''top'')"
proof -
  let ?u = "''http://x/?a=1&utm_source=chatgpt.com&b=2#top''"
  let ?p = "\<lparr>scheme = ''http'', netloc = ''x'', path = ''/'',
             query = ''a=1&utm_source=chatgpt.com&b=2'', fragment = ''top''\<rparr>"
  have c: "contains ?u ''utm_source=chatgpt.com''" by code_simp
  have s: "urlsplit lenient ?u = Inr ?p" by code_simp
  have k: "filter (\<lambda>(k, v). \<not> (k = ''utm_source'' \<and> v = ''chatgpt.com''))
             (parse_qsl ''a=1&utm_source=chatgpt.com&b=2'') = [(''a'', ''1''), (''b'', ''2'')]"
    by code_simp
  have q: "query ?p = ''a=1&utm_source=chatgpt.com&b=2''" by simp
  have f: "fragment ?p = ''top''" by simp
  from utm_parameter_removed [OF c s] obtain out where
    o1: "strip_chatgpt_utm lenient ?u = Inr out"
    and o2: "parse_qsl (query_text out)
       = filter (\<lambda>(k, v). \<not> (k = ''utm_source'' \<and> v = ''chatgpt.com'')) (parse_qsl (query ?p))"
    and o3: "(''utm_source'', ''chatgpt.com'') \<notin> set (parse_qsl (query_text out))"
    and o4: "''utm_source=chatgpt.com'' \<notin> set (split CHR ''&'' (query_text out))"
    and o5: "fragment_text out = fragment ?p"
    by blast
  from o2 have p2: "parse_qsl (query_text out) = [(''a'', ''1''), (''b'', ''2'')]"
    unfolding q k .
  from o5 have p5: "fragment_text out = ''top''" unfolding f .
  from o1 p2 o3 o4 p5 have
    "\<exists>out. strip_chatgpt_utm lenient ?u = Inr out
          \<and> parse_qsl (query_text out) = [(''a'', ''1''), (''b'', ''2'')]
          \<and> (''utm_source'', ''chatgpt.com'') \<notin> set (parse_qsl (query_text out))
          \<and> ''utm_source=chatgpt.com'' \<notin> set (split CHR ''&'' (query_text out))
          \<and> fragment_text out = ''top''"
    by blast
  with c s show ?thesis by blast
qed

end
